theory Spec2Isabelle
  imports Complex_Main
begin

section \<open>Data model (types.ts)\<close>

text \<open>
  JavaScript numbers are modelled as ideal reals; an optional field \<open>f?: T\<close> is a
  \<open>T option\<close>. Field names carry a short prefix because several interfaces share the
  names \<open>id\<close>, \<open>name\<close> and \<open>url\<close>, and \<open>x\<close>, \<open>y\<close>, \<open>text\<close> cannot be field names.
\<close>

record OverlayConfig =
  ov_text :: string
  ov_x :: real
  ov_y :: real
  ov_fontSize :: real
  ov_color :: string
  ov_strokeColor :: "string option"
  ov_strokeWidth :: "real option"
  ov_shadowColor :: "string option"
  ov_shadowBlur :: "real option"
  ov_bgColor :: "string option"
  ov_bgPadding :: "real option"

record VideoFile =
  vf_id :: string
  vf_name :: string
  vf_url :: string
  vf_type :: string
  vf_overlay :: "OverlayConfig option"

record BgmFile =
  bgm_id :: string
  bgm_name :: string
  bgm_url :: string
  bgm_duration :: real

record Composition =
  comp_id :: string
  comp_name :: string
  comp_segments :: "VideoFile list"
  comp_createdAt :: nat
  comp_aiTitle :: "string option"
  comp_aiDescription :: "string option"

text \<open>JavaScript truthiness of an optional string and of an optional number.\<close>

definition truthy_str :: "string option \<Rightarrow> bool" where
  "truthy_str v = (case v of None \<Rightarrow> False | Some s \<Rightarrow> s \<noteq> [])"

definition truthy_num :: "real option \<Rightarrow> bool" where
  "truthy_num v = (case v of None \<Rightarrow> False | Some r \<Rightarrow> r \<noteq> 0)"

section \<open>Preview player (components/SeamlessPlayer.tsx)\<close>

datatype PlayerId = Player1 | Player2

text \<open>
  The React state of the component together with the \<open>src\<close> attributes of the two
  video elements, which the handlers assign through their refs.
\<close>

record PlayerState =
  currentIndex :: nat
  activePlayerId :: PlayerId
  isPlaying :: bool
  video1Src :: "string option"
  video2Src :: "string option"

text \<open>The component as mounted: the initial React state, and two video elements without source.\<close>

definition mountPlayer :: PlayerState where
  "mountPlayer = \<lparr> currentIndex = 0, activePlayerId = Player1, isPlaying = False,
                   video1Src = None, video2Src = None \<rparr>"

text \<open>
  The effect run when \<open>segments\<close> or \<open>bgm\<close> change: reset, and assign the first two
  sources. A source that is not assigned is kept: with a single segment the second video
  keeps what it had. With no segment the component renders no video element at all.
\<close>

definition resetPlayer :: "VideoFile list \<Rightarrow> PlayerState \<Rightarrow> PlayerState" where
  "resetPlayer segments prev =
     \<lparr> currentIndex = 0, activePlayerId = Player1, isPlaying = False,
       video1Src = (if length segments > 0 then Some (vf_url (segments ! 0)) else None),
       video2Src = (if length segments > 1 then Some (vf_url (segments ! 1))
                    else if length segments > 0 then video2Src prev else None) \<rparr>"

definition otherPlayer :: "PlayerId \<Rightarrow> PlayerId" where
  "otherPlayer p = (if p = Player1 then Player2 else Player1)"

definition setSrc :: "PlayerId \<Rightarrow> string \<Rightarrow> PlayerState \<Rightarrow> PlayerState" where
  "setSrc p u s = (if p = Player1 then s\<lparr>video1Src := Some u\<rparr> else s\<lparr>video2Src := Some u\<rparr>)"

text \<open>
  \<open>handleVideoEnded\<close>. The component renders no video element for an empty segment
  list, so the handler only runs with at least one segment; the model leaves the state
  unchanged otherwise.
\<close>

definition handleVideoEnded :: "VideoFile list \<Rightarrow> BgmFile option \<Rightarrow> PlayerState \<Rightarrow> PlayerState" where
  "handleVideoEnded segments bgm s =
     (if segments = [] then s
      else
        let nextIndex0 = currentIndex s + 1 in
        if bgm = None \<and> nextIndex0 \<ge> length segments then
          s\<lparr> isPlaying := False, video1Src := Some (vf_url (segments ! 0)),
             currentIndex := 0, activePlayerId := Player1 \<rparr>
        else
          let nextIndex = (if bgm \<noteq> None \<and> nextIndex0 \<ge> length segments then 0 else nextIndex0);
              nextActiveId = otherPlayer (activePlayerId s);
              s1 = s\<lparr> activePlayerId := nextActiveId, currentIndex := nextIndex \<rparr>;
              preloadIndex0 = nextIndex + 1;
              preloadIndex = (if bgm \<noteq> None \<and> preloadIndex0 \<ge> length segments then 0 else preloadIndex0)
          in if preloadIndex < length segments
             then setSrc (activePlayerId s) (vf_url (segments ! preloadIndex)) s1
             else s1)"

text \<open>\<open>handleAudioEnded\<close>: the end of the background track resets the machine.\<close>

definition handleAudioEnded :: "VideoFile list \<Rightarrow> BgmFile option \<Rightarrow> PlayerState \<Rightarrow> PlayerState" where
  "handleAudioEnded segments bgm s =
     (if bgm \<noteq> None then
        (let s1 = s\<lparr> isPlaying := False \<rparr>;
             s2 = (if length segments > 0 then s1\<lparr> video1Src := Some (vf_url (segments ! 0)) \<rparr> else s1)
         in s2\<lparr> currentIndex := 0, activePlayerId := Player1 \<rparr>)
      else s)"

text \<open>\<open>togglePlay\<close>, with the \<open>play()\<close> promise of the active video fulfilled.\<close>

definition togglePlay :: "PlayerState \<Rightarrow> PlayerState" where
  "togglePlay s = (if isPlaying s then s\<lparr> isPlaying := False \<rparr> else s\<lparr> isPlaying := True \<rparr>)"

text \<open>
  What the component renders: nothing but a placeholder for an empty segment list,
  otherwise an audio element iff a track is attached, the two video elements with their
  \<open>muted\<close> attribute and visibility, and the overlay of the current segment.
\<close>

record PreviewStyle =
  css_left :: real
  css_top :: real
  css_color :: string
  css_fontSize :: real
  css_textStroke :: "(real \<times> string option) option"
  css_textShadow :: "(real \<times> string) option"
  css_backgroundColor :: string
  css_padding :: real

text \<open>
  The inline style of the overlay element. Lengths are in \<open>cqw\<close> units (one hundredth of
  the container width). The stroke colour is interpolated as it is, so a missing
  \<open>strokeColor\<close> stays \<open>None\<close>; a missing \<open>shadowColor\<close> becomes \<open>black\<close>.
\<close>

definition previewStyle :: "OverlayConfig \<Rightarrow> PreviewStyle" where
  "previewStyle overlay =
     \<lparr> css_left = ov_x overlay,
       css_top = ov_y overlay,
       css_color = ov_color overlay,
       css_fontSize = (ov_fontSize overlay / 720) * 100,
       css_textStroke =
         (if truthy_num (ov_strokeWidth overlay)
          then Some ((the (ov_strokeWidth overlay) / 720) * 100, ov_strokeColor overlay) else None),
       css_textShadow =
         (if truthy_num (ov_shadowBlur overlay)
          then Some ((the (ov_shadowBlur overlay) / 720) * 100,
                     (if truthy_str (ov_shadowColor overlay) then the (ov_shadowColor overlay) else ''black''))
          else None),
       css_backgroundColor =
         (if truthy_str (ov_bgColor overlay) then the (ov_bgColor overlay) else ''transparent''),
       css_padding =
         (if truthy_num (ov_bgPadding overlay) then (the (ov_bgPadding overlay) / 720) * 100 else 0) \<rparr>"

record PlayerView =
  view_audio :: bool
  view_video1Muted :: bool
  view_video2Muted :: bool
  view_video1Visible :: bool
  view_video2Visible :: bool
  view_overlay :: "PreviewStyle option"

definition SeamlessPlayer :: "VideoFile list \<Rightarrow> BgmFile option \<Rightarrow> PlayerState \<Rightarrow> PlayerView option" where
  "SeamlessPlayer segments bgm s =
     (if length segments = 0 then None
      else
        let overlay = (if currentIndex s < length segments
                       then vf_overlay (segments ! currentIndex s) else None)
        in Some \<lparr> view_audio = (bgm \<noteq> None),
                  view_video1Muted = (bgm \<noteq> None),
                  view_video2Muted = (bgm \<noteq> None),
                  view_video1Visible = (activePlayerId s = Player1),
                  view_video2Visible = (activePlayerId s = Player2),
                  view_overlay = map_option previewStyle overlay \<rparr>)"

section \<open>Export: drawing the overlay (Main.tsx, draw loop of handleExport)\<close>

text \<open>
  The part of the 2D context the overlay code assigns. \<open>fontPx\<close> is the size in
  \<open>ctx.font = `bold ${fontSize}px sans-serif`\<close>. Colour strings are taken to be valid
  CSS colours. The canvas setters of \<open>lineWidth\<close> and \<open>shadowBlur\<close> ignore values that
  are not positive, respectively negative.
\<close>

record Ctx2D =
  fillStyle :: string
  strokeStyle :: string
  lineWidth :: real
  shadowColor :: string
  shadowBlur :: real
  fontPx :: real

definition setLineWidth :: "real \<Rightarrow> Ctx2D \<Rightarrow> Ctx2D" where
  "setLineWidth w ctx = (if w > 0 then ctx\<lparr> lineWidth := w \<rparr> else ctx)"

definition setShadowBlur :: "real \<Rightarrow> Ctx2D \<Rightarrow> Ctx2D" where
  "setShadowBlur b ctx = (if b \<ge> 0 then ctx\<lparr> shadowBlur := b \<rparr> else ctx)"

text \<open>
  The context as \<open>handleExport\<close> leaves it after creating the canvas: black fill, and
  the defaults of a fresh context (no shadow, line width 1, 10px font).
\<close>

definition exportCtx :: Ctx2D where
  "exportCtx = \<lparr> fillStyle = ''#000'', strokeStyle = ''#000000'', lineWidth = 1,
                 shadowColor = ''rgba(0, 0, 0, 0)'', shadowBlur = 0, fontPx = 10 \<rparr>"

text \<open>
  A drawing call with the context attributes that decide what it paints: the paint
  colour, the geometry, and the shadow (colour, blur) in force at the call.
\<close>

datatype DrawOp =
    FillRect string real real real real "string \<times> real"
  | StrokeText string real real real string "string \<times> real"
  | FillText string real real string "string \<times> real"

definition shadowOf :: "Ctx2D \<Rightarrow> string \<times> real" where
  "shadowOf ctx = (shadowColor ctx, shadowBlur ctx)"

text \<open>\<open>text.split('\n')\<close>\<close>

fun split_lines :: "string \<Rightarrow> string list" where
  "split_lines [] = [[]]"
| "split_lines (c # cs) =
     (if c = CHR 0x0A then [] # split_lines cs
      else (case split_lines cs of [] \<Rightarrow> [[c]] | l # ls \<Rightarrow> (c # l) # ls))"

text \<open>The measuring loop: the largest \<open>measureText(line).width\<close>, starting from 0.\<close>

definition maxLineWidth :: "(real \<Rightarrow> string \<Rightarrow> real) \<Rightarrow> real \<Rightarrow> string list \<Rightarrow> real" where
  "maxLineWidth measureText px lines =
     fold (\<lambda>line maxWidth. if measureText px line > maxWidth then measureText px line else maxWidth)
       lines 0"

text \<open>The body of the second \<open>lines.forEach\<close>: optional stroke, fill, advance \<open>lineY\<close>.\<close>

definition drawLine :: "OverlayConfig \<Rightarrow> real \<Rightarrow> real \<Rightarrow> string
    \<Rightarrow> Ctx2D \<times> real \<times> DrawOp list \<Rightarrow> Ctx2D \<times> real \<times> DrawOp list" where
  "drawLine overlay xPos lineHeight line st =
     (case st of (ctx, lineY, ops) \<Rightarrow>
        let (ctx1, ops1) =
              (if truthy_num (ov_strokeWidth overlay) \<and> truthy_str (ov_strokeColor overlay) then
                 (let c = (setLineWidth (the (ov_strokeWidth overlay)) ctx)
                            \<lparr> strokeStyle := the (ov_strokeColor overlay) \<rparr>
                  in (c, ops @ [StrokeText line xPos lineY (lineWidth c) (strokeStyle c) (shadowOf c)]))
               else (ctx, ops));
            ctx2 = ctx1\<lparr> fillStyle := ov_color overlay \<rparr>
        in (ctx2, lineY + lineHeight, ops1 @ [FillText line xPos lineY (fillStyle ctx2) (shadowOf ctx2)]))"

text \<open>
  The overlay block of the draw loop, between \<open>ctx.save()\<close> and \<open>ctx.restore()\<close>, on a
  canvas of \<open>cw\<close> by \<open>ch\<close> pixels. It returns the drawing calls and the restored context.
\<close>

definition drawOverlay :: "(real \<Rightarrow> string \<Rightarrow> real) \<Rightarrow> OverlayConfig \<Rightarrow> real \<Rightarrow> real
    \<Rightarrow> Ctx2D \<Rightarrow> DrawOp list \<times> Ctx2D" where
  "drawOverlay measureText overlay cw ch ctx =
     (let saved = ctx;
          ctx1 = ctx\<lparr> fontPx := ov_fontSize overlay \<rparr>;
          lines = split_lines (ov_text overlay);
          lineHeight = ov_fontSize overlay * 1.2;
          maxWidth = maxLineWidth measureText (fontPx ctx1) lines;
          pad = (if truthy_num (ov_bgPadding overlay) then the (ov_bgPadding overlay) else 0);
          boxWidth = maxWidth + (pad * 2);
          totalHeight = real (length lines) * lineHeight;
          boxHeight = totalHeight + (pad * 2);
          xPos = (ov_x overlay / 100) * cw;
          yPos = (ov_y overlay / 100) * ch;
          boxX = xPos - (boxWidth / 2);
          boxY = yPos - (boxHeight / 2);
          (ctx2, ops2) =
            (if truthy_str (ov_bgColor overlay) then
               (let c = ctx1\<lparr> fillStyle := the (ov_bgColor overlay) \<rparr>
                in (c, [FillRect (fillStyle c) boxX boxY boxWidth boxHeight (shadowOf c)]))
             else (ctx1, []));
          ctx3 =
            (if truthy_num (ov_shadowBlur overlay) \<and> truthy_str (ov_shadowColor overlay) then
               setShadowBlur (the (ov_shadowBlur overlay))
                 (ctx2\<lparr> shadowColor := the (ov_shadowColor overlay) \<rparr>)
             else setShadowBlur 0 (ctx2\<lparr> shadowColor := ''transparent'' \<rparr>));
          lineY = boxY + pad + (lineHeight / 2);
          (ctx4, lineY', ops4) = fold (drawLine overlay xPos lineHeight) lines (ctx3, lineY, ops2)
      in (ops4, saved))"

section \<open>JavaScript numbers\<close>

text \<open>
  The arithmetic of the export loop is done on IEEE 754 doubles: each operation yields
  the exact result rounded to the nearest double, ties to the even significand.
  \<open>fl64\<close> is that rounding, for a significand of 53 bits and an exponent without bounds
  (no overflow to \<open>Infinity\<close> and no subnormal numbers: the times and ratios of an export
  are far from both). \<open>binade x\<close> is the exponent \<open>e\<close> with \<open>2^e \<le> |x| < 2^(e+1)\<close>.
\<close>

definition pow2 :: "int \<Rightarrow> real" where
  "pow2 e = (if 0 \<le> e then 2 ^ nat e else 1 / 2 ^ nat (- e))"

definition binade :: "real \<Rightarrow> int" where
  "binade x = (if x = 0 then 0 else \<lfloor>log 2 \<bar>x\<bar>\<rfloor>)"

definition round_even :: "real \<Rightarrow> int" where
  "round_even q =
     (let f = \<lfloor>q\<rfloor>; r = q - of_int f
      in if r < 1 / 2 then f else if 1 / 2 < r then f + 1 else if even f then f else f + 1)"

definition fl64 :: "real \<Rightarrow> real" where
  "fl64 x = (if x = 0 then 0
             else of_int (round_even (x / pow2 (binade x - 52))) * pow2 (binade x - 52))"

section \<open>Export: the segment loop (Main.tsx, playNextSegment)\<close>

text \<open>
  What the browser does with one segment after \<open>video.src = segment.url\<close>; one of the
  four continuations of the promise runs:
  \<^item> \<open>LoadTimeout\<close>: the 15000 ms timer fires before \<open>loadeddata\<close>;
  \<^item> \<open>PlayRejected\<close>: \<open>loadeddata\<close> arrives and \<open>video.play()\<close> rejects;
  \<^item> \<open>PlaybackError\<close>: the \<open>error\<close> event of the video;
  \<^item> \<open>Plays d cs\<close>: the video plays; \<open>d\<close> is \<open>video.duration\<close> and \<open>cs\<close> are the values
    of \<open>video.currentTime\<close> that the 100 ms poll reads, in order, while it plays.
\<close>

datatype SegmentEvent = LoadTimeout | PlayRejected | PlaybackError | Plays real "real list"

text \<open>How a visit of a segment ended (a record of the run, kept for the statements).\<close>

datatype Outcome = TimedOut | PlayFailed | Errored | EndedNaturally real | ForcedStop real

record Visit =
  v_index :: nat
  v_start :: real
  v_outcome :: Outcome

text \<open>
  The variables of the loop, the values passed to \<open>setExportProgress\<close>, the console
  messages, and an exception thrown out of \<open>playNextSegment\<close>.
\<close>

record LoopState =
  currentSegmentIndex :: nat
  accumulatedTime :: real
  isFinished :: bool
  activeSegment :: "VideoFile option"
  progressLog :: "int list"
  consoleLog :: "string list"
  visits :: "Visit list"
  thrown :: "string option"

definition initLoop :: LoopState where
  "initLoop = \<lparr> currentSegmentIndex = 0, accumulatedTime = 0, isFinished = False,
                activeSegment = None, progressLog = [], consoleLog = [], visits = [],
                thrown = None \<rparr>"

text \<open>\<open>Math.round\<close>: the nearest integer, halves upwards (exact on every double).\<close>

definition Math_round :: "real \<Rightarrow> int" where
  "Math_round r = \<lfloor>r + 1 / 2\<rfloor>"

text \<open>
  The progress value computed at the start of a segment: a division and a
  multiplication of doubles, each rounded, then \<open>Math.min\<close> and \<open>Math.round\<close>.
\<close>

definition progressOf :: "bool \<Rightarrow> real \<Rightarrow> nat \<Rightarrow> LoopState \<Rightarrow> int" where
  "progressOf hasBgm totalDuration n s =
     Math_round (if hasBgm then min 100 (fl64 (fl64 (accumulatedTime s / totalDuration) * 100))
                 else min 100 (fl64 (fl64 (real (currentSegmentIndex s) / real n) * 100)))"

text \<open>
  The poll: with a track attached, the first reading \<open>c\<close> of \<open>currentTime\<close> with
  \<open>accumulatedTime + c >= totalDuration\<close> (a sum of doubles) pauses the video and
  dispatches \<open>ended\<close>.
\<close>

definition pollCutoff :: "bool \<Rightarrow> real \<Rightarrow> real \<Rightarrow> real list \<Rightarrow> real option" where
  "pollCutoff hasBgm totalDuration acc cs =
     (if hasBgm then find (\<lambda>c. fl64 (acc + c) \<ge> totalDuration) cs else None)"

text \<open>
  The promise of one segment. Every continuation increments \<open>currentSegmentIndex\<close>;
  only \<open>onended\<close> adds to \<open>accumulatedTime\<close>, and it adds \<open>video.duration\<close> (a sum of
  doubles) both on a natural end and on the \<open>ended\<close> event dispatched by the poll.
\<close>

definition awaitSegment :: "bool \<Rightarrow> real \<Rightarrow> nat \<Rightarrow> VideoFile \<Rightarrow> SegmentEvent \<Rightarrow> LoopState \<Rightarrow> LoopState" where
  "awaitSegment hasBgm totalDuration pos segment e s =
     (case e of
        LoadTimeout \<Rightarrow>
          s\<lparr> consoleLog := consoleLog s @ [''Video load timeout: '' @ vf_name segment],
             currentSegmentIndex := currentSegmentIndex s + 1,
             visits := visits s @ [\<lparr> v_index = pos, v_start = accumulatedTime s, v_outcome = TimedOut \<rparr>] \<rparr>
      | PlayRejected \<Rightarrow>
          s\<lparr> consoleLog := consoleLog s @ [''Play error''],
             currentSegmentIndex := currentSegmentIndex s + 1,
             visits := visits s @ [\<lparr> v_index = pos, v_start = accumulatedTime s, v_outcome = PlayFailed \<rparr>] \<rparr>
      | PlaybackError \<Rightarrow>
          s\<lparr> consoleLog := consoleLog s @ [''Error playing '' @ vf_name segment],
             currentSegmentIndex := currentSegmentIndex s + 1,
             visits := visits s @ [\<lparr> v_index = pos, v_start = accumulatedTime s, v_outcome = Errored \<rparr>] \<rparr>
      | Plays d cs \<Rightarrow>
          s\<lparr> accumulatedTime := fl64 (accumulatedTime s + d),
             currentSegmentIndex := currentSegmentIndex s + 1,
             visits := visits s @
               [\<lparr> v_index = pos, v_start = accumulatedTime s,
                  v_outcome = (case pollCutoff hasBgm totalDuration (accumulatedTime s) cs of
                                 Some c \<Rightarrow> ForcedStop c | None \<Rightarrow> EndedNaturally d) \<rparr>] \<rparr>)"

text \<open>
  \<open>playNextSegment\<close>. The source recurses without bound; the model counts the calls down
  from \<open>fuel\<close> and returns \<open>None\<close> when they run out. \<open>events k\<close> is what the browser does
  at the visit made with \<open>currentSegmentIndex = k\<close>. With an empty segment list and a
  track attached, \<open>segment\<close> is \<open>undefined\<close> and \<open>segment.url\<close> throws a TypeError, after
  the progress update.
\<close>

fun playNextSegment :: "nat \<Rightarrow> VideoFile list \<Rightarrow> bool \<Rightarrow> real \<Rightarrow> (nat \<Rightarrow> SegmentEvent)
    \<Rightarrow> LoopState \<Rightarrow> LoopState option" where
  "playNextSegment 0 segments hasBgm totalDuration events s = None"
| "playNextSegment (Suc fuel) segments hasBgm totalDuration events s =
     (if hasBgm \<and> accumulatedTime s \<ge> totalDuration then Some (s\<lparr> isFinished := True \<rparr>)
      else if \<not> hasBgm \<and> currentSegmentIndex s \<ge> length segments then Some (s\<lparr> isFinished := True \<rparr>)
      else if segments = [] then
        Some (s\<lparr> activeSegment := None,
                 progressLog := progressLog s @ [progressOf hasBgm totalDuration (length segments) s],
                 thrown := Some ''TypeError'' \<rparr>)
      else
        let pos = currentSegmentIndex s mod length segments;
            segment = segments ! pos;
            s1 = s\<lparr> activeSegment := Some segment,
                    progressLog := progressLog s @ [progressOf hasBgm totalDuration (length segments) s] \<rparr>;
            s2 = awaitSegment hasBgm totalDuration pos segment (events (currentSegmentIndex s)) s1
        in if \<not> isFinished s2 then playNextSegment fuel segments hasBgm totalDuration events s2
           else Some s2)"

text \<open>
  Closed forms used to state the properties of the loop: how a visit ends, what it makes
  of \<open>accumulatedTime\<close>, the duration of the clip of an event, one pass through the body
  of \<open>playNextSegment\<close>, and whether a visit was cut off by the poll.
\<close>

definition outcomeOf :: "bool \<Rightarrow> real \<Rightarrow> real \<Rightarrow> SegmentEvent \<Rightarrow> Outcome" where
  "outcomeOf hasBgm totalDuration acc e =
     (case e of LoadTimeout \<Rightarrow> TimedOut | PlayRejected \<Rightarrow> PlayFailed | PlaybackError \<Rightarrow> Errored
      | Plays d cs \<Rightarrow> (case pollCutoff hasBgm totalDuration acc cs of
                        Some c \<Rightarrow> ForcedStop c | None \<Rightarrow> EndedNaturally d))"

definition accountOf :: "real \<Rightarrow> SegmentEvent \<Rightarrow> real" where
  "accountOf acc e = (case e of Plays d cs \<Rightarrow> fl64 (acc + d) | _ \<Rightarrow> acc)"

definition durationOf :: "SegmentEvent \<Rightarrow> real" where
  "durationOf e = (case e of Plays d cs \<Rightarrow> d | _ \<Rightarrow> 0)"

definition visitSegment :: "VideoFile list \<Rightarrow> bool \<Rightarrow> real \<Rightarrow> (nat \<Rightarrow> SegmentEvent) \<Rightarrow> LoopState \<Rightarrow> LoopState" where
  "visitSegment segments hasBgm totalDuration events s =
     awaitSegment hasBgm totalDuration (currentSegmentIndex s mod length segments)
       (segments ! (currentSegmentIndex s mod length segments)) (events (currentSegmentIndex s))
       (s\<lparr> activeSegment := Some (segments ! (currentSegmentIndex s mod length segments)),
           progressLog := progressLog s @ [progressOf hasBgm totalDuration (length segments) s] \<rparr>)"

definition forced :: "Visit \<Rightarrow> bool" where
  "forced v = (case v_outcome v of ForcedStop c \<Rightarrow> True | _ \<Rightarrow> False)"

text \<open>The media time a visit has played: up to the cutoff, or the whole clip.\<close>

definition playedTime :: "Outcome \<Rightarrow> real" where
  "playedTime oc = (case oc of ForcedStop c \<Rightarrow> c | EndedNaturally d \<Rightarrow> d | _ \<Rightarrow> 0)"

text \<open>
  The state the loop has reached after at most \<open>k\<close> visits, for a non-empty composition:
  the loop cut off after \<open>k\<close> passes, whether or not it ever finishes. \<open>loopDone\<close> is the
  test with which \<open>playNextSegment\<close> sets \<open>isFinished\<close>.
\<close>

definition loopDone :: "bool \<Rightarrow> real \<Rightarrow> nat \<Rightarrow> LoopState \<Rightarrow> bool" where
  "loopDone hasBgm totalDuration n s =
     ((hasBgm \<and> accumulatedTime s \<ge> totalDuration) \<or> (\<not> hasBgm \<and> currentSegmentIndex s \<ge> n))"

fun afterVisits :: "nat \<Rightarrow> VideoFile list \<Rightarrow> bool \<Rightarrow> real \<Rightarrow> (nat \<Rightarrow> SegmentEvent)
    \<Rightarrow> LoopState \<Rightarrow> LoopState" where
  "afterVisits 0 segments hasBgm totalDuration events s = s"
| "afterVisits (Suc k) segments hasBgm totalDuration events s =
     (if loopDone hasBgm totalDuration (length segments) s then s
      else afterVisits k segments hasBgm totalDuration events
             (visitSegment segments hasBgm totalDuration events s))"

text \<open>
  A poll of period \<open>period\<close> (100 ms in the source) while a clip of duration \<open>d\<close>
  plays: the readings of the clip time increase, lie within the clip, start at most one
  period after its beginning, follow each other at most one period apart and end at most
  one period before its end.
  \<open>prev\<close> is the reading before the list (0 at the start of the clip).
\<close>

fun gapsOk :: "real \<Rightarrow> real \<Rightarrow> real list \<Rightarrow> real \<Rightarrow> bool" where
  "gapsOk period prev [] d = (prev \<le> d \<and> d - prev \<le> period)"
| "gapsOk period prev (c # cs) d = (prev \<le> c \<and> c - prev \<le> period \<and> gapsOk period c cs d)"

definition wellPolled :: "real \<Rightarrow> real \<Rightarrow> real list \<Rightarrow> bool" where
  "wellPolled period d cs = gapsOk period 0 cs d"

text \<open>
  What the statements about a job with a track say of a single visit \<open>v\<close>, the
  \<open>i\<close>-th of the run, for a track of duration \<open>D\<close>: it took the segment at \<open>i\<close> modulo
  the number of segments, started below \<open>D\<close>, played for less than one poll period beyond
  \<open>D\<close>, ended as the event of the visit says (a playing clip either to its natural end,
  no poll reading having reached \<open>D\<close>, or at the first poll reading at which the sum in
  doubles has reached \<open>D\<close>), and was cut off
  if the clip would have lasted one poll period beyond \<open>D\<close> or more. \<open>trackInv\<close> collects
  this for every visit made so far, with: a visit that was cut off is the last one, and the
  accounted time has then reached \<open>D\<close>.
\<close>

definition visitOk :: "real \<Rightarrow> real \<Rightarrow> nat \<Rightarrow> (nat \<Rightarrow> SegmentEvent) \<Rightarrow> nat \<Rightarrow> Visit \<Rightarrow> bool" where
  "visitOk D period n ev i v =
     (v_index v = i mod n \<and> v_start v < D
      \<and> v_start v + playedTime (v_outcome v) < D + period
      \<and> (case ev i of
            Plays d cs \<Rightarrow>
              ((v_outcome v = EndedNaturally d \<and> (\<forall>c\<in>set cs. fl64 (v_start v + c) < D))
               \<or> (\<exists>j<length cs. v_outcome v = ForcedStop (cs ! j)
                      \<and> D \<le> fl64 (v_start v + cs ! j)
                      \<and> (\<forall>j'<j. fl64 (v_start v + cs ! j') < D)))
              \<and> (D + period \<le> v_start v + d \<longrightarrow> forced v)
          | LoadTimeout \<Rightarrow> v_outcome v = TimedOut
          | PlayRejected \<Rightarrow> v_outcome v = PlayFailed
          | PlaybackError \<Rightarrow> v_outcome v = Errored))"

definition trackInv :: "real \<Rightarrow> real \<Rightarrow> nat \<Rightarrow> (nat \<Rightarrow> SegmentEvent) \<Rightarrow> LoopState \<Rightarrow> bool" where
  "trackInv D period n ev s =
     (length (visits s) = currentSegmentIndex s
      \<and> (\<forall>i<length (visits s). visitOk D period n ev i (visits s ! i))
      \<and> (\<forall>i<length (visits s). forced (visits s ! i) \<longrightarrow>
            Suc i = length (visits s) \<and> D \<le> accumulatedTime s))"

text \<open>
  The invariant of the progress updates: the accounted time is a non-negative double, the
  updates made so far are sorted and between 0 and 100, and none exceeds what the next
  update would be.
\<close>

definition progInv :: "bool \<Rightarrow> real \<Rightarrow> nat \<Rightarrow> LoopState \<Rightarrow> bool" where
  "progInv hasBgm D n s =
     (0 \<le> accumulatedTime s \<and> fl64 (accumulatedTime s) = accumulatedTime s
      \<and> sorted (progressLog s)
      \<and> (\<forall>p\<in>set (progressLog s). 0 \<le> p \<and> p \<le> 100 \<and> p \<le> progressOf hasBgm D n s))"

section \<open>Export: one job (Main.tsx, handleExport)\<close>

text \<open>
  What the browser contributes to one job: whether the track decodes, the events of the
  segments, which container types the recorder supports, and the sizes of the blobs it
  hands to \<open>ondataavailable\<close>.
\<close>

record ExportEnv =
  bgmDecodes :: bool
  segmentEvents :: "nat \<Rightarrow> SegmentEvent"
  supportsMp4 :: bool
  supportsWebmH264 :: bool
  recordedData :: "nat list"

record BatchStatus =
  bs_current :: nat
  bs_total :: nat
  bs_active :: bool

text \<open>The React state of \<open>Main\<close> that the export handlers read and write.\<close>

record AppState =
  bgm :: "BgmFile option"
  results :: "Composition list"
  selectedIds :: "string set"
  isExporting :: bool
  exportProgress :: int
  batchStatus :: BatchStatus

datatype JobOutcome = Rejected | Downloaded string string | Failed string

text \<open>
  What a call of \<open>handleExport\<close> did: every value it passed to \<open>setExportProgress\<close>, how
  it ended, whether it raised the failure alert, and the final loop state.
\<close>

record JobReport =
  job_emitted :: "int list"
  job_outcome :: JobOutcome
  job_alert :: bool
  job_loop :: "LoopState option"

definition totalDurationOf :: "BgmFile option \<Rightarrow> bool \<Rightarrow> real" where
  "totalDurationOf b decodes =
     (case b of Some t \<Rightarrow> (if decodes then bgm_duration t else 9999) | None \<Rightarrow> 999999)"

definition negotiateMimeType :: "ExportEnv \<Rightarrow> string" where
  "negotiateMimeType env =
     (if supportsMp4 env then ''video/mp4''
      else if supportsWebmH264 env then ''video/webm;codecs=h264'' else ''video/webm'')"

definition extOf :: "ExportEnv \<Rightarrow> string" where
  "extOf env = (if supportsMp4 env then ''mp4'' else ''webm'')"

definition is_space :: "char \<Rightarrow> bool" where
  "is_space c = (c \<in> set [CHR '' '', CHR 0x09, CHR 0x0A, CHR 0x0B, CHR 0x0C, CHR 0x0D])"

text \<open>\<open>name.replace(/\s+/g, '_')\<close> on ASCII white space; \<open>inRun\<close> says the previous character was one.\<close>

fun replace_spaces :: "bool \<Rightarrow> string \<Rightarrow> string" where
  "replace_spaces inRun [] = []"
| "replace_spaces inRun (c # cs) =
     (if is_space c then (if inRun then replace_spaces True cs else CHR ''_'' # replace_spaces True cs)
      else c # replace_spaces False cs)"

definition downloadName :: "Composition \<Rightarrow> ExportEnv \<Rightarrow> string" where
  "downloadName composition env = replace_spaces False (comp_name composition) @ ''_9_16.'' @ extOf env"

definition noDataMessage :: string where
  "noDataMessage = ''Error: No video data recorded (chunks empty)''"

text \<open>
  \<open>handleExport\<close>, run to its end. A rejected call changes nothing. Otherwise progress is
  set to 0, the loop runs, the recorder is stopped, and an empty \<open>chunks\<close> array (only
  blobs of positive size are kept) throws; the \<open>catch\<close> block logs and, outside a batch,
  alerts; the \<open>finally\<close> block clears \<open>isExporting\<close> outside a batch and sets progress
  to 0 again.
\<close>

definition handleExport :: "nat \<Rightarrow> ExportEnv \<Rightarrow> Composition \<Rightarrow> bool \<Rightarrow> AppState
    \<Rightarrow> (AppState \<times> JobReport) option" where
  "handleExport fuel env composition isBatch st =
     (if isExporting st \<and> \<not> isBatch then
        Some (st, \<lparr> job_emitted = [], job_outcome = Rejected, job_alert = False, job_loop = None \<rparr>)
      else
        let totalDuration = totalDurationOf (bgm st) (bgmDecodes env)
        in case playNextSegment fuel (comp_segments composition) (bgm st \<noteq> None) totalDuration
                  (segmentEvents env) initLoop of
             None \<Rightarrow> None
           | Some l \<Rightarrow>
               let chunks = filter (\<lambda>size. size > 0) (recordedData env);
                   outcome = (case thrown l of
                                Some e \<Rightarrow> Failed e
                              | None \<Rightarrow> if length chunks = 0 then Failed noDataMessage
                                        else Downloaded (downloadName composition env) (negotiateMimeType env));
                   failed = (case outcome of Failed e \<Rightarrow> True | _ \<Rightarrow> False)
               in Some (st\<lparr> isExporting := (if isBatch then isExporting st else False),
                            exportProgress := 0 \<rparr>,
                        \<lparr> job_emitted = [0] @ progressLog l @ [0],
                          job_outcome = outcome,
                          job_alert = (failed \<and> \<not> isBatch),
                          job_loop = Some l \<rparr>))"

section \<open>Export: batch and the two export buttons\<close>

text \<open>The loop of \<open>handleBatchExport\<close> over the targets, the \<open>i\<close>-th with environment \<open>envs i\<close>.\<close>

fun batchLoop :: "nat \<Rightarrow> (nat \<Rightarrow> ExportEnv) \<Rightarrow> nat \<Rightarrow> Composition list \<Rightarrow> AppState
    \<Rightarrow> (AppState \<times> JobReport list) option" where
  "batchLoop fuel envs i [] st = Some (st, [])"
| "batchLoop fuel envs i (t # ts) st =
     (let st1 = st\<lparr> batchStatus := (batchStatus st)\<lparr> bs_current := i + 1 \<rparr> \<rparr>
      in case handleExport fuel (envs i) t True st1 of
           None \<Rightarrow> None
         | Some (st2, r) \<Rightarrow>
             (case batchLoop fuel envs (i + 1) ts st2 of
                None \<Rightarrow> None
              | Some (st3, rs) \<Rightarrow> Some (st3, r # rs)))"

definition handleBatchExport :: "nat \<Rightarrow> (nat \<Rightarrow> ExportEnv) \<Rightarrow> AppState
    \<Rightarrow> (AppState \<times> JobReport list) option" where
  "handleBatchExport fuel envs st =
     (let targets = filter (\<lambda>r. comp_id r \<in> selectedIds st) (results st)
      in if length targets = 0 then Some (st, [])
         else if isExporting st \<or> bs_active (batchStatus st) then Some (st, [])
         else
           (case batchLoop fuel envs 0 targets
                   (st\<lparr> batchStatus := \<lparr> bs_current = 0, bs_total = length targets, bs_active = True \<rparr> \<rparr>) of
              None \<Rightarrow> None
            | Some (st', rs) \<Rightarrow>
                Some (st'\<lparr> batchStatus := \<lparr> bs_current = 0, bs_total = 0, bs_active = False \<rparr> \<rparr>, rs)))"

text \<open>
  The two buttons. Each carries a \<open>disabled\<close> attribute, and a disabled button delivers
  no click:
  \<^item> export: \<open>disabled={isExporting || batchStatus.active}\<close>, \<open>onClick\<close> calls
    \<open>handleExport(activeComposition)\<close>;
  \<^item> batch: \<open>disabled={isExporting || batchStatus.active || selectedIds.size === 0}\<close>,
    \<open>onClick\<close> is \<open>handleBatchExport\<close>.
\<close>

definition clickExport :: "nat \<Rightarrow> ExportEnv \<Rightarrow> Composition \<Rightarrow> AppState \<Rightarrow> (AppState \<times> JobReport) option" where
  "clickExport fuel env activeComposition st =
     (if isExporting st \<or> bs_active (batchStatus st) then
        Some (st, \<lparr> job_emitted = [], job_outcome = Rejected, job_alert = False, job_loop = None \<rparr>)
      else handleExport fuel env activeComposition False st)"

definition clickBatchExport :: "nat \<Rightarrow> (nat \<Rightarrow> ExportEnv) \<Rightarrow> AppState
    \<Rightarrow> (AppState \<times> JobReport list) option" where
  "clickBatchExport fuel envs st =
     (if isExporting st \<or> bs_active (batchStatus st) \<or> selectedIds st = {} then Some (st, [])
      else handleBatchExport fuel envs st)"

text \<open>
  The drawing calls of one line in closed form, for a context \<open>ctx\<close> whose shadow is
  already set up; used to state what the loop over the lines draws.
\<close>

definition lineOps :: "OverlayConfig \<Rightarrow> real \<Rightarrow> Ctx2D \<Rightarrow> real \<Rightarrow> string \<Rightarrow> DrawOp list" where
  "lineOps overlay xPos ctx lineY line =
     (if truthy_num (ov_strokeWidth overlay) \<and> truthy_str (ov_strokeColor overlay)
      then [StrokeText line xPos lineY (lineWidth (setLineWidth (the (ov_strokeWidth overlay)) ctx))
              (the (ov_strokeColor overlay)) (shadowOf ctx)]
      else [])
     @ [FillText line xPos lineY (ov_color overlay) (shadowOf ctx)]"

text \<open>Example inputs: a text measure of half the font size per character, and overlays.\<close>

definition exampleMeasure :: "real \<Rightarrow> string \<Rightarrow> real" where
  "exampleMeasure px line = px * real (length line) / 2"

definition exampleOverlay :: "real option \<Rightarrow> string option \<Rightarrow> real option \<Rightarrow> string option \<Rightarrow> OverlayConfig" where
  "exampleOverlay sw sc sb shc =
     \<lparr> ov_text = [CHR ''H'', CHR ''i'', CHR 0x0A, CHR ''y'', CHR ''o'', CHR ''u''],
       ov_x = 50, ov_y = 50, ov_fontSize = 40, ov_color = ''#ffffff'',
       ov_strokeColor = sc, ov_strokeWidth = sw, ov_shadowColor = shc, ov_shadowBlur = sb,
       ov_bgColor = Some ''#112233'', ov_bgPadding = Some 20 \<rparr>"

definition exampleClip :: "string \<Rightarrow> VideoFile" where
  "exampleClip u = \<lparr> vf_id = u, vf_name = u, vf_url = u, vf_type = ''video/mp4'', vf_overlay = None \<rparr>"

definition exampleTrack :: "real \<Rightarrow> BgmFile" where
  "exampleTrack d = \<lparr> bgm_id = ''t'', bgm_name = ''track.mp3'', bgm_url = ''blob:track'', bgm_duration = d \<rparr>"


definition examplePoll :: "real list" where
  "examplePoll = [1/20, 3/20, 5/20, 7/20, 9/20, 11/20, 13/20, 15/20, 17/20, 19/20,
                  21/20, 23/20, 25/20, 27/20, 29/20]"

definition exampleEnv :: "bool \<Rightarrow> (nat \<Rightarrow> SegmentEvent) \<Rightarrow> nat list \<Rightarrow> ExportEnv" where
  "exampleEnv decodes ev blobs =
     \<lparr> bgmDecodes = decodes, segmentEvents = ev, supportsMp4 = True, supportsWebmH264 = False,
       recordedData = blobs \<rparr>"

definition exampleComposition :: "VideoFile list \<Rightarrow> Composition" where
  "exampleComposition segs =
     \<lparr> comp_id = ''c1'', comp_name = ''mix  1'', comp_segments = segs, comp_createdAt = 0,
       comp_aiTitle = None, comp_aiDescription = None \<rparr>"

definition exampleApp :: "BgmFile option \<Rightarrow> bool \<Rightarrow> int \<Rightarrow> bool \<Rightarrow> AppState" where
  "exampleApp track exporting progress batchActive =
     \<lparr> bgm = track, results = [exampleComposition [exampleClip ''a'']], selectedIds = {''c1''},
       isExporting = exporting, exportProgress = progress,
       batchStatus = \<lparr> bs_current = (if batchActive then 1 else 0),
                        bs_total = (if batchActive then 1 else 0), bs_active = batchActive \<rparr> \<rparr>"

section \<open>Preview state machine\<close>

lemma handleVideoEnded_advance:
  assumes "segments \<noteq> []" "currentIndex s + 1 < length segments"
  shows "currentIndex (handleVideoEnded segments None s) = currentIndex s + 1"
    and "activePlayerId (handleVideoEnded segments None s) = otherPlayer (activePlayerId s)"
    and "isPlaying (handleVideoEnded segments None s) = isPlaying s"
  using assms by (simp_all add: handleVideoEnded_def Let_def setSrc_def)

lemma handleVideoEnded_last:
  assumes "segments \<noteq> []" "currentIndex s + 1 \<ge> length segments"
  shows "currentIndex (handleVideoEnded segments None s) = 0"
    and "activePlayerId (handleVideoEnded segments None s) = Player1"
    and "\<not> isPlaying (handleVideoEnded segments None s)"
  using assms by (simp_all add: handleVideoEnded_def Let_def)

lemma handleVideoEnded_iterate:
  assumes "segments \<noteq> []" "k < length segments"
  shows "currentIndex ((handleVideoEnded segments None ^^ k) (togglePlay (resetPlayer segments prev))) = k
       \<and> activePlayerId ((handleVideoEnded segments None ^^ k) (togglePlay (resetPlayer segments prev)))
           = (if even k then Player1 else Player2)
       \<and> isPlaying ((handleVideoEnded segments None ^^ k) (togglePlay (resetPlayer segments prev)))"
  using assms(2)
proof (induction k)
  case 0
  then show ?case by (simp add: togglePlay_def resetPlayer_def)
next
  case (Suc k)
  then have ih: "currentIndex ((handleVideoEnded segments None ^^ k) (togglePlay (resetPlayer segments prev))) = k"
    "activePlayerId ((handleVideoEnded segments None ^^ k) (togglePlay (resetPlayer segments prev)))
       = (if even k then Player1 else Player2)"
    "isPlaying ((handleVideoEnded segments None ^^ k) (togglePlay (resetPlayer segments prev)))"
    by simp_all
  from Suc.prems ih(1)
  have lt: "currentIndex ((handleVideoEnded segments None ^^ k) (togglePlay (resetPlayer segments prev))) + 1
              < length segments"
    by simp
  show ?case
    using handleVideoEnded_advance[OF assms(1) lt] ih
    by (simp add: otherPlayer_def)
qed

text \<open>
  C9. Preview state machine without a background track, for a composition of
  \<open>N \<ge> 1\<close> segments: a segment completion at index \<open>i\<close> with \<open>i + 1 < N\<close> moves to index
  \<open>i + 1\<close> on the other slot and keeps playing; a completion with \<open>i + 1 = N\<close> moves to
  the idle state (not playing) with index 0 and slot 1 active; and starting playback on
  the freshly reset player and letting all \<open>N\<close> segments complete ends idle at index 0
  on slot 1.
\<close>

theorem preview_trackless_completion:
  assumes "segments \<noteq> []" and "currentIndex s < length segments"
  shows "(currentIndex s + 1 < length segments \<longrightarrow>
            currentIndex (handleVideoEnded segments None s) = currentIndex s + 1
          \<and> activePlayerId (handleVideoEnded segments None s) = otherPlayer (activePlayerId s)
          \<and> isPlaying (handleVideoEnded segments None s) = isPlaying s)
       \<and> (currentIndex s + 1 = length segments \<longrightarrow>
            currentIndex (handleVideoEnded segments None s) = 0
          \<and> activePlayerId (handleVideoEnded segments None s) = Player1
          \<and> \<not> isPlaying (handleVideoEnded segments None s))
       \<and> currentIndex ((handleVideoEnded segments None ^^ length segments)
            (togglePlay (resetPlayer segments prev))) = 0
       \<and> activePlayerId ((handleVideoEnded segments None ^^ length segments)
            (togglePlay (resetPlayer segments prev))) = Player1
       \<and> \<not> isPlaying ((handleVideoEnded segments None ^^ length segments)
            (togglePlay (resetPlayer segments prev)))"
proof -
  obtain n where n: "length segments = Suc n"
    using assms(1) by (cases segments) auto
  let ?t = "(handleVideoEnded segments None ^^ n) (togglePlay (resetPlayer segments prev))"
  have "n < length segments" using n by simp
  from handleVideoEnded_iterate[OF assms(1) this]
  have idx: "currentIndex ?t = n" by simp
  then have ge: "currentIndex ?t + 1 \<ge> length segments" using n by simp
  have run: "(handleVideoEnded segments None ^^ length segments) (togglePlay (resetPlayer segments prev))
               = handleVideoEnded segments None ?t"
    by (simp add: n)
  have a: "currentIndex s + 1 < length segments \<longrightarrow>
            currentIndex (handleVideoEnded segments None s) = currentIndex s + 1
          \<and> activePlayerId (handleVideoEnded segments None s) = otherPlayer (activePlayerId s)
          \<and> isPlaying (handleVideoEnded segments None s) = isPlaying s"
    using handleVideoEnded_advance[OF assms(1)] by blast
  have b: "currentIndex s + 1 = length segments \<longrightarrow>
            currentIndex (handleVideoEnded segments None s) = 0
          \<and> activePlayerId (handleVideoEnded segments None s) = Player1
          \<and> \<not> isPlaying (handleVideoEnded segments None s)"
    using handleVideoEnded_last[OF assms(1)] by simp
  show ?thesis
    using a b handleVideoEnded_last[OF assms(1) ge] unfolding run by blast
qed

theorem preview_trackless_completion_witness:
  "[exampleClip ''a'', exampleClip ''b'', exampleClip ''c''] \<noteq> []
   \<and> currentIndex (resetPlayer [exampleClip ''a'', exampleClip ''b'', exampleClip ''c''] mountPlayer)
       < length [exampleClip ''a'', exampleClip ''b'', exampleClip ''c'']
   \<and> currentIndex ((handleVideoEnded [exampleClip ''a'', exampleClip ''b'', exampleClip ''c''] None
         ^^ length [exampleClip ''a'', exampleClip ''b'', exampleClip ''c''])
        (togglePlay (resetPlayer [exampleClip ''a'', exampleClip ''b'', exampleClip ''c''] mountPlayer))) = 0
   \<and> activePlayerId ((handleVideoEnded [exampleClip ''a'', exampleClip ''b'', exampleClip ''c''] None
         ^^ length [exampleClip ''a'', exampleClip ''b'', exampleClip ''c''])
        (togglePlay (resetPlayer [exampleClip ''a'', exampleClip ''b'', exampleClip ''c''] mountPlayer))) = Player1
   \<and> \<not> isPlaying ((handleVideoEnded [exampleClip ''a'', exampleClip ''b'', exampleClip ''c''] None
         ^^ length [exampleClip ''a'', exampleClip ''b'', exampleClip ''c''])
        (togglePlay (resetPlayer [exampleClip ''a'', exampleClip ''b'', exampleClip ''c''] mountPlayer)))"
proof -
  have h1: "[exampleClip ''a'', exampleClip ''b'', exampleClip ''c''] \<noteq> []" by simp
  have h2: "currentIndex (resetPlayer [exampleClip ''a'', exampleClip ''b'', exampleClip ''c''] mountPlayer)
              < length [exampleClip ''a'', exampleClip ''b'', exampleClip ''c'']"
    by (simp add: resetPlayer_def)
  show ?thesis
    using h1 h2 preview_trackless_completion[OF h1 h2] by blast
qed

section \<open>Preview audio routing\<close>

text \<open>
  C10. Whenever the preview player renders its video elements, both of them carry the
  same \<open>muted\<close> attribute, and it is set exactly when a background track is attached;
  the audio element of the track exists exactly in that case. So the segments' own audio
  is audible only without a track, and never together with the track.
\<close>

theorem preview_muted_iff_track:
  "SeamlessPlayer segments track s = Some v \<Longrightarrow>
     view_video1Muted v = (track \<noteq> None) \<and> view_video2Muted v = (track \<noteq> None)
   \<and> view_audio v = (track \<noteq> None)
   \<and> (view_audio v \<longleftrightarrow> view_video1Muted v \<and> view_video2Muted v)"
  by (auto simp: SeamlessPlayer_def Let_def split: if_splits)

theorem preview_muted_iff_track_witness:
  "SeamlessPlayer [exampleClip ''a''] (Some (exampleTrack 30)) (resetPlayer [exampleClip ''a''] mountPlayer)
     = Some \<lparr> view_audio = True, view_video1Muted = True, view_video2Muted = True,
              view_video1Visible = True, view_video2Visible = False, view_overlay = None \<rparr>
   \<and> view_video1Muted \<lparr> view_audio = True, view_video1Muted = True, view_video2Muted = True,
              view_video1Visible = True, view_video2Visible = False, view_overlay = None \<rparr>
       = (Some (exampleTrack 30) \<noteq> None)"
proof -
  have h: "SeamlessPlayer [exampleClip ''a''] (Some (exampleTrack 30)) (resetPlayer [exampleClip ''a''] mountPlayer)
     = Some \<lparr> view_audio = True, view_video1Muted = True, view_video2Muted = True,
              view_video1Visible = True, view_video2Visible = False, view_overlay = None \<rparr>"
    by (simp add: SeamlessPlayer_def resetPlayer_def exampleClip_def)
  show ?thesis
    using h preview_muted_iff_track[OF h] by blast
qed

section \<open>Overlay drawing on the export canvas\<close>

lemma split_lines_nonempty: "split_lines t \<noteq> []"
  by (induction t) (auto split: list.splits)

lemma split_lines_length: "length (split_lines t) = Suc (count_list t (CHR 0x0A))"
  by (induction t) (auto split: list.splits simp: split_lines_nonempty)

lemma split_lines_no_break: "l \<in> set (split_lines t) \<Longrightarrow> CHR 0x0A \<notin> set l"
  by (induction t arbitrary: l) (auto split: list.splits if_splits)

lemma fold_max_width:
  "fold (\<lambda>line mw. if (f line :: real) > mw then f line else mw) ls a = Max (insert a (f ` set ls))"
proof (induction ls arbitrary: a)
  case Nil
  then show ?case by simp
next
  case (Cons l ls)
  have "Max (insert (if f l > a then f l else a) (f ` set ls)) = Max (insert a (insert (f l) (f ` set ls)))"
  proof (cases "f l > a")
    case True
    have "Max (insert a (insert (f l) (f ` set ls))) = max a (Max (insert (f l) (f ` set ls)))"
      by (rule Max_insert) simp_all
    also have "\<dots> = Max (insert (f l) (f ` set ls))"
      using True by (intro max_absorb2) (simp add: Max_ge_iff less_imp_le)
    finally show ?thesis using True by simp
  next
    case False
    have "insert a (insert (f l) (f ` set ls)) = insert (f l) (insert a (f ` set ls))" by auto
    then have "Max (insert a (insert (f l) (f ` set ls))) = max (f l) (Max (insert a (f ` set ls)))"
      by (simp only: Max_insert[OF finite_insert[THEN iffD2, OF finite_imageI[OF finite_set]] insert_not_empty])
    also have "\<dots> = Max (insert a (f ` set ls))"
      using False by (intro max_absorb2) (simp add: Max_ge_iff)
    finally show ?thesis using False by simp
  qed
  with Cons.IH[of "if f l > a then f l else a"] show ?case by simp
qed

lemma maxLineWidth_Max:
  "maxLineWidth measureText px ls = Max (insert 0 (measureText px ` set ls))"
  unfolding maxLineWidth_def by (rule fold_max_width)

lemma drawLine_step:
  "drawLine ov xPos lh line (ctx, y, ops) = (ctx', y', ops') \<Longrightarrow>
     y' = y + lh \<and> ops' = ops @ lineOps ov xPos ctx y line
   \<and> shadowOf ctx' = shadowOf ctx
   \<and> lineWidth (setLineWidth (the (ov_strokeWidth ov)) ctx')
       = lineWidth (setLineWidth (the (ov_strokeWidth ov)) ctx)"
  by (auto simp: drawLine_def lineOps_def Let_def shadowOf_def setLineWidth_def
           split: if_splits prod.splits)

lemma lineOps_cong:
  "shadowOf c' = shadowOf c \<Longrightarrow>
   lineWidth (setLineWidth (the (ov_strokeWidth ov)) c')
     = lineWidth (setLineWidth (the (ov_strokeWidth ov)) c) \<Longrightarrow>
   lineOps ov xPos c' y line = lineOps ov xPos c y line"
  by (simp add: lineOps_def)

lemma fold_drawLine:
  "fold (drawLine ov xPos lh) lines (ctx, y, ops) = (ctx', y', ops') \<Longrightarrow>
     ops' = ops @ concat (map (\<lambda>(i, line). lineOps ov xPos ctx (y + real i * lh) line)
                            (enumerate 0 lines))"
proof (induction lines arbitrary: ctx y ops)
  case Nil
  then show ?case by simp
next
  case (Cons l ls)
  obtain c1 y1 o1 where st: "drawLine ov xPos lh l (ctx, y, ops) = (c1, y1, o1)"
    by (cases "drawLine ov xPos lh l (ctx, y, ops)") auto
  note s = drawLine_step[OF st]
  from Cons.prems st have "fold (drawLine ov xPos lh) ls (c1, y1, o1) = (ctx', y', ops')"
    by simp
  from Cons.IH[OF this]
  have "ops' = o1 @ concat (map (\<lambda>(i, line). lineOps ov xPos c1 (y1 + real i * lh) line)
                              (enumerate 0 ls))" .
  moreover have "\<And>yy line. lineOps ov xPos c1 yy line = lineOps ov xPos ctx yy line"
    using s by (intro lineOps_cong) simp_all
  ultimately have "ops' = ops @ lineOps ov xPos ctx y l
       @ concat (map (\<lambda>(i, line). lineOps ov xPos ctx (y + lh + real i * lh) line) (enumerate 0 ls))"
    using s by simp
  moreover have "map (\<lambda>(i, line). lineOps ov xPos ctx (y + lh + real i * lh) line) (enumerate 0 ls)
      = map (\<lambda>(i, line). lineOps ov xPos ctx (y + real i * lh) line) (enumerate (Suc 0) ls)"
    by (simp add: enumerate_Suc_eq[of 0] split_def algebra_simps)
  ultimately show ?case by simp
qed

lemma fold_drawLine_ops:
  "snd (snd (fold (drawLine ov xPos lh) lines (ctx, y, ops)))
     = ops @ concat (map (\<lambda>(i, line). lineOps ov xPos ctx (y + real i * lh) line)
                            (enumerate 0 lines))"
  by (cases "fold (drawLine ov xPos lh) lines (ctx, y, ops)") (auto dest: fold_drawLine)

text \<open>
  C8 (as amended). For every overlay drawn on the export canvas (in the state
  \<open>handleExport\<close> sets up, which each call restores): the text is split at line
  breaks, so there is one line more than there are breaks; \<open>lineHeight = fontSize * 1.2\<close>;
  the box is \<open>maxLineWidth + 2 * pad\<close> wide and \<open>numLines * lineHeight + 2 * pad\<close> tall
  (\<open>pad\<close> is \<open>bgPadding\<close>, or 0 when it is missing or 0) and centred at (x%, y%) of the
  canvas. The calls are, in order: the background rectangle iff \<open>bgColor\<close> is set, drawn
  without shadow; then for each line a stroke outline iff \<open>strokeWidth\<close> is non-zero and
  \<open>strokeColor\<close> is set, then the filled glyphs, both at the horizontal centre and at the
  middle of the line, and both under the shadow, which is (\<open>shadowColor\<close>, \<open>shadowBlur\<close>) iff
  both are set and is off otherwise.
\<close>

theorem export_overlay_drawing:
  "fst (drawOverlay measureText ov cw ch exportCtx) =
     (let lines = split_lines (ov_text ov);
          lineHeight = ov_fontSize ov * 1.2;
          pad = (if truthy_num (ov_bgPadding ov) then the (ov_bgPadding ov) else 0);
          boxWidth = Max (insert 0 (measureText (ov_fontSize ov) ` set lines)) + 2 * pad;
          boxHeight = real (length lines) * lineHeight + 2 * pad;
          xPos = ov_x ov / 100 * cw;
          yPos = ov_y ov / 100 * ch;
          shadow = (if truthy_num (ov_shadowBlur ov) \<and> truthy_str (ov_shadowColor ov)
                    then (the (ov_shadowColor ov), max 0 (the (ov_shadowBlur ov)))
                    else (''transparent'', 0))
      in (if truthy_str (ov_bgColor ov)
          then [FillRect (the (ov_bgColor ov)) (xPos - boxWidth / 2) (yPos - boxHeight / 2)
                  boxWidth boxHeight (''rgba(0, 0, 0, 0)'', 0)]
          else [])
         @ concat (map (\<lambda>(i, line).
              (if truthy_num (ov_strokeWidth ov) \<and> truthy_str (ov_strokeColor ov)
               then [StrokeText line xPos
                       (yPos - boxHeight / 2 + pad + lineHeight / 2 + real i * lineHeight)
                       (if the (ov_strokeWidth ov) > 0 then the (ov_strokeWidth ov) else 1)
                       (the (ov_strokeColor ov)) shadow]
               else [])
              @ [FillText line xPos
                   (yPos - boxHeight / 2 + pad + lineHeight / 2 + real i * lineHeight)
                   (ov_color ov) shadow])
            (enumerate 0 lines)))
   \<and> snd (drawOverlay measureText ov cw ch exportCtx) = exportCtx
   \<and> length (split_lines (ov_text ov)) = Suc (count_list (ov_text ov) (CHR 0x0A))"
proof -
  have bg: "truthy_str (ov_bgColor ov) \<or> \<not> truthy_str (ov_bgColor ov)" by blast
  have sb: "truthy_num (ov_shadowBlur ov) \<or> \<not> truthy_num (ov_shadowBlur ov)" by blast
  have sc: "truthy_str (ov_shadowColor ov) \<or> \<not> truthy_str (ov_shadowColor ov)" by blast
  from bg sb sc show ?thesis
    by (elim disjE)
       (simp_all add: drawOverlay_def Let_def split_def fold_drawLine_ops lineOps_def shadowOf_def
          setShadowBlur_def setLineWidth_def exportCtx_def maxLineWidth_Max split_lines_length
          max_def ac_simps cong del: if_weak_cong)
qed

text \<open>
  The claim as first stated (a stroke outline iff \<open>strokeWidth > 0\<close>) fails for an overlay
  with \<open>strokeWidth = 4\<close> and no \<open>strokeColor\<close>: no outline is drawn.
\<close>

theorem export_overlay_stroke_counterexample:
  "truthy_num (ov_strokeWidth (exampleOverlay (Some 4) None (Some 10) (Some ''#000000'')))
   \<and> the (ov_strokeWidth (exampleOverlay (Some 4) None (Some 10) (Some ''#000000''))) > 0
   \<and> fst (drawOverlay exampleMeasure (exampleOverlay (Some 4) None (Some 10) (Some ''#000000'')) 720 1280 exportCtx)
     = [FillRect ''#112233'' 310 572 100 136 (''rgba(0, 0, 0, 0)'', 0),
        FillText ''Hi'' 360 616 ''#ffffff'' (''#000000'', 10),
        FillText ''you'' 360 664 ''#ffffff'' (''#000000'', 10)]"
  by (simp add: drawOverlay_def exampleOverlay_def exampleMeasure_def Let_def truthy_num_def
        truthy_str_def maxLineWidth_def drawLine_def exportCtx_def shadowOf_def setShadowBlur_def
        setLineWidth_def)

theorem export_overlay_drawing_witness:
  "fst (drawOverlay exampleMeasure (exampleOverlay (Some 4) (Some ''#ff0000'') (Some 10) (Some ''#000000'')) 720 1280 exportCtx)
     = [FillRect ''#112233'' 310 572 100 136 (''rgba(0, 0, 0, 0)'', 0),
        StrokeText ''Hi'' 360 616 4 ''#ff0000'' (''#000000'', 10),
        FillText ''Hi'' 360 616 ''#ffffff'' (''#000000'', 10),
        StrokeText ''you'' 360 664 4 ''#ff0000'' (''#000000'', 10),
        FillText ''you'' 360 664 ''#ffffff'' (''#000000'', 10)]"
  using export_overlay_drawing[of exampleMeasure "exampleOverlay (Some 4) (Some ''#ff0000'') (Some 10) (Some ''#000000'')" 720 1280]
  by (simp add: exampleOverlay_def exampleMeasure_def Let_def truthy_num_def
        truthy_str_def enumerate_eq_zip upt_rec)

section \<open>Rounding to doubles\<close>

text \<open>
  \<open>fl64\<close> is monotone, odd, idempotent, and exact on every product of an integer below
  \<open>2^53\<close> in magnitude with a power of two. \<open>binade\<close> is computed by halving and doubling.
\<close>

lemma pow2_powr: "pow2 e = 2 powr (of_int e)"
  by (simp add: pow2_def powr_int)

lemma pow2_pos: "0 < pow2 e"
  by (simp add: pow2_def)

lemma pow2_add: "pow2 (a + b) = pow2 a * pow2 b"
  by (simp add: pow2_powr powr_add)

lemma pow2_mono: "a \<le> b \<Longrightarrow> pow2 a \<le> pow2 b"
  by (simp add: pow2_powr)

lemma pow2_nat: "pow2 (int n) = 2 ^ n"
  by (simp add: pow2_def)

lemma binade_bounds:
  assumes "x \<noteq> 0"
  shows "pow2 (binade x) \<le> \<bar>x\<bar>" and "\<bar>x\<bar> < pow2 (binade x + 1)"
proof -
  have "0 < \<bar>x\<bar>" using assms by simp
  from floor_log_eq_powr_iff[OF this, of 2 "binade x"]
  have "2 powr (of_int (binade x)) \<le> \<bar>x\<bar> \<and> \<bar>x\<bar> < 2 powr (of_int (binade x) + 1)"
    using assms by (simp add: binade_def)
  then show "pow2 (binade x) \<le> \<bar>x\<bar>" and "\<bar>x\<bar> < pow2 (binade x + 1)"
    by (simp_all add: pow2_powr)
qed

lemma binade_unique:
  assumes "pow2 e \<le> \<bar>x\<bar>" and "\<bar>x\<bar> < pow2 (e + 1)"
  shows "binade x = e"
proof -
  have "0 < \<bar>x\<bar>" using assms(1) pow2_pos[of e] by linarith
  then have "x \<noteq> 0" by auto
  with floor_log_eq_powr_iff[OF \<open>0 < \<bar>x\<bar>\<close>, of 2 e] assms
  show ?thesis by (simp add: binade_def pow2_powr)
qed

lemma binade_minus: "binade (- x) = binade x"
  by (simp add: binade_def)

lemma binade_mono:
  assumes "0 < x" and "x \<le> y"
  shows "binade x \<le> binade y"
proof -
  have "log 2 x \<le> log 2 y" using assms by simp
  then show ?thesis using assms by (simp add: binade_def floor_mono)
qed

lemma round_even_of_int: "round_even (of_int n) = n"
  by (simp add: round_even_def)

lemma round_even_bounds: "\<lfloor>q\<rfloor> \<le> round_even q" "round_even q \<le> \<lfloor>q\<rfloor> + 1"
  by (simp_all add: round_even_def Let_def)

lemma round_even_floor_eq:
  assumes "\<lfloor>a\<rfloor> = \<lfloor>b\<rfloor>" and "a \<le> b"
  shows "round_even a \<le> round_even b"
  using assms by (auto simp: round_even_def Let_def)

lemma round_even_mono:
  assumes "a \<le> b"
  shows "round_even a \<le> round_even b"
proof (cases "\<lfloor>a\<rfloor> = \<lfloor>b\<rfloor>")
  case True
  then show ?thesis using assms by (rule round_even_floor_eq)
next
  case False
  with assms have "\<lfloor>a\<rfloor> < \<lfloor>b\<rfloor>" using floor_mono[OF assms] by linarith
  then show ?thesis
    using round_even_bounds(2)[of a] round_even_bounds(1)[of b] by linarith
qed

lemma round_even_minus: "round_even (- q) = - round_even q"
proof (cases "q = of_int \<lfloor>q\<rfloor>")
  case True
  then obtain n where "q = of_int n" by metis
  then have "- q = of_int (- n)" by simp
  then show ?thesis using \<open>q = of_int n\<close> by (simp only: round_even_of_int)
next
  case False
  then have lt: "of_int \<lfloor>q\<rfloor> < q" using of_int_floor_le[of q] by linarith
  have "\<lfloor>- q\<rfloor> = - \<lfloor>q\<rfloor> - 1"
    using lt by (intro floor_unique) (simp_all, linarith+)
  then show ?thesis
    using lt by (auto simp: round_even_def Let_def)
qed


lemma fl64_0: "fl64 0 = 0"
  by (simp add: fl64_def)

lemma fl64_minus: "fl64 (- x) = - fl64 x"
  by (simp add: fl64_def binade_minus round_even_minus)

lemma pow2_52: "pow2 b = 2 ^ 52 * pow2 (b - 52)"
proof -
  have "b = int 52 + (b - 52)" by simp
  then have "pow2 b = pow2 (int 52 + (b - 52))" by (rule arg_cong)
  also have "\<dots> = pow2 (int 52) * pow2 (b - 52)" by (rule pow2_add)
  finally show ?thesis by (simp only: pow2_nat)
qed

lemma pow2_53: "pow2 (b + 1) = 2 ^ 53 * pow2 (b - 52)"
proof -
  have "b + 1 = int 53 + (b - 52)" by simp
  then have "pow2 (b + 1) = pow2 (int 53 + (b - 52))" by (rule arg_cong)
  also have "\<dots> = pow2 (int 53) * pow2 (b - 52)" by (rule pow2_add)
  finally show ?thesis by (simp only: pow2_nat)
qed

lemma significand_bounds:
  assumes "0 < x"
  shows "2 ^ 52 \<le> x / pow2 (binade x - 52)" and "x / pow2 (binade x - 52) < 2 ^ 53"
proof -
  from assms have nz: "x \<noteq> 0" by simp
  from binade_bounds[OF nz] assms
  have "pow2 (binade x) \<le> x" "x < pow2 (binade x + 1)" by simp_all
  then have "2 ^ 52 * pow2 (binade x - 52) \<le> x" "x < 2 ^ 53 * pow2 (binade x - 52)"
    using pow2_52[of "binade x"] pow2_53[of "binade x"] by simp_all
  then show "2 ^ 52 \<le> x / pow2 (binade x - 52)" and "x / pow2 (binade x - 52) < 2 ^ 53"
    using pow2_pos[of "binade x - 52"] by (simp_all add: field_simps)
qed

lemma rounded_significand_bounds:
  assumes "0 < x"
  shows "2 ^ 52 \<le> round_even (x / pow2 (binade x - 52))"
    and "round_even (x / pow2 (binade x - 52)) \<le> 2 ^ 53"
proof -
  have "round_even (of_int (2 ^ 52)) \<le> round_even (x / pow2 (binade x - 52))"
    using significand_bounds(1)[OF assms] by (intro round_even_mono) simp
  then show "2 ^ 52 \<le> round_even (x / pow2 (binade x - 52))"
    by (simp only: round_even_of_int)
  have "round_even (x / pow2 (binade x - 52)) \<le> round_even (of_int (2 ^ 53))"
    using significand_bounds(2)[OF assms] by (intro round_even_mono) simp
  then show "round_even (x / pow2 (binade x - 52)) \<le> 2 ^ 53"
    by (simp only: round_even_of_int)
qed

lemma fl64_pos_bounds:
  assumes "0 < x"
  shows "pow2 (binade x) \<le> fl64 x" and "fl64 x \<le> pow2 (binade x + 1)"
proof -
  let ?u = "pow2 (binade x - 52)"
  let ?n = "round_even (x / ?u)"
  have f: "fl64 x = of_int ?n * ?u" using assms by (simp add: fl64_def)
  have "(2 ^ 52 :: real) \<le> of_int ?n"
    using rounded_significand_bounds(1)[OF assms] by (metis of_int_le_iff of_int_numeral of_int_power)
  then have "2 ^ 52 * ?u \<le> of_int ?n * ?u"
    using pow2_pos[of "binade x - 52"] by (intro mult_right_mono) simp_all
  then show "pow2 (binade x) \<le> fl64 x"
    unfolding f using pow2_52[of "binade x"] by simp
  have "of_int ?n \<le> (2 ^ 53 :: real)"
    using rounded_significand_bounds(2)[OF assms] by (metis of_int_le_iff of_int_numeral of_int_power)
  then have "of_int ?n * ?u \<le> 2 ^ 53 * ?u"
    using pow2_pos[of "binade x - 52"] by (intro mult_right_mono) simp_all
  then show "fl64 x \<le> pow2 (binade x + 1)"
    unfolding f using pow2_53[of "binade x"] by simp
qed

lemma fl64_pos: "0 < x \<Longrightarrow> 0 < fl64 x"
  using fl64_pos_bounds(1)[of x] pow2_pos[of "binade x"] by linarith

lemma fl64_mono_pos:
  assumes "0 < x" and "x \<le> y"
  shows "fl64 x \<le> fl64 y"
proof (cases "binade x = binade y")
  case True
  let ?u = "pow2 (binade y - 52)"
  have "x / ?u \<le> y / ?u" using assms(2) pow2_pos[of "binade y - 52"] by (simp add: divide_right_mono)
  then have "round_even (x / ?u) \<le> round_even (y / ?u)" by (rule round_even_mono)
  then have "of_int (round_even (x / ?u)) * ?u \<le> of_int (round_even (y / ?u)) * ?u"
    using pow2_pos[of "binade y - 52"] by (intro mult_right_mono) simp_all
  then show ?thesis using assms True by (simp add: fl64_def)
next
  case False
  with binade_mono[OF assms] have "binade x + 1 \<le> binade y" by simp
  then have "pow2 (binade x + 1) \<le> pow2 (binade y)" by (rule pow2_mono)
  moreover have "0 < y" using assms by simp
  ultimately show ?thesis
    using fl64_pos_bounds(2)[OF assms(1)] fl64_pos_bounds(1)[OF \<open>0 < y\<close>] by linarith
qed

lemma fl64_mono:
  assumes "x \<le> y"
  shows "fl64 x \<le> fl64 y"
proof -
  consider "0 < x" | "x = 0" | "x < 0" "y < 0" | "x < 0" "0 \<le> y" by linarith
  then show ?thesis
  proof cases
    case 1
    then show ?thesis using assms by (rule fl64_mono_pos)
  next
    case 2
    then show ?thesis using assms fl64_pos[of y] by (cases "y = 0") (simp_all add: fl64_0 less_imp_le)
  next
    case 3
    then have "fl64 (- y) \<le> fl64 (- x)" using assms by (intro fl64_mono_pos) simp_all
    then show ?thesis by (simp add: fl64_minus)
  next
    case 4
    then have "0 < fl64 (- x)" by (intro fl64_pos) simp
    then have "fl64 x < 0" by (simp add: fl64_minus)
    moreover have "0 \<le> fl64 y" using 4(2) fl64_pos[of y] by (cases "y = 0") (simp_all add: fl64_0 less_imp_le)
    ultimately show ?thesis by linarith
  qed
qed

lemma fl64_exact_lt:
  assumes "\<bar>j\<bar> < 2 ^ 53"
  shows "fl64 (of_int j * pow2 e) = of_int j * pow2 e"
proof (cases "j = 0")
  case True
  then show ?thesis by (simp add: fl64_0)
next
  case False
  let ?x = "of_int j * pow2 e"
  have nz: "?x \<noteq> 0" using False pow2_pos[of e] by simp
  have ax: "\<bar>?x\<bar> = of_int \<bar>j\<bar> * pow2 e" using pow2_pos[of e] by (simp add: abs_mult)
  have "(of_int \<bar>j\<bar> :: real) < 2 ^ 53"
    using assms by (metis of_int_less_iff of_int_numeral of_int_power)
  then have "\<bar>?x\<bar> < 2 ^ 53 * pow2 e"
    unfolding ax using pow2_pos[of e] by (intro mult_strict_right_mono) simp_all
  also have "2 ^ 53 * pow2 e = pow2 (e + 53)"
    using pow2_add[of e 53] by (simp add: pow2_def)
  finally have "pow2 (binade ?x) < pow2 (e + 53)"
    using binade_bounds(1)[OF nz] by linarith
  then have "binade ?x < e + 53"
    using pow2_mono[of "e + 53" "binade ?x"] by (cases "binade ?x < e + 53") auto
  then have k: "0 \<le> e - (binade ?x - 52)" by simp
  define k where "k = nat (e - (binade ?x - 52))"
  have e: "e = int k + (binade ?x - 52)" using k by (simp add: k_def)
  have "pow2 e = pow2 (int k + (binade ?x - 52))" using e by (rule arg_cong)
  also have "\<dots> = pow2 (int k) * pow2 (binade ?x - 52)" by (rule pow2_add)
  finally have pe: "pow2 e = 2 ^ k * pow2 (binade ?x - 52)" by (simp only: pow2_nat)
  have "of_int j * p / u = of_int (j * 2 ^ k)" if "0 < u" "p = 2 ^ k * u" for p u :: real
    using that by simp
  from this[OF pow2_pos pe]
  have "round_even (?x / pow2 (binade ?x - 52)) = j * 2 ^ k"
    by (simp only: round_even_of_int)
  then have "fl64 ?x = of_int (j * 2 ^ k) * pow2 (binade ?x - 52)"
    using nz by (simp only: fl64_def if_False)
  also have "\<dots> = of_int j * (2 ^ k * pow2 (binade ?x - 52))" by simp
  also have "\<dots> = of_int j * pow2 e" by (simp only: pe[symmetric])
  finally show ?thesis .
qed

lemma fl64_exact_int: "\<bar>j\<bar> < 2 ^ 53 \<Longrightarrow> fl64 (of_int j) = of_int j"
  using fl64_exact_lt[of j 0] by (simp add: pow2_def)

lemma fl64_idem: "fl64 (fl64 x) = fl64 x"
proof -
  have pos: "fl64 (fl64 x) = fl64 x" if "0 < x" for x
  proof -
    let ?u = "pow2 (binade x - 52)"
    let ?n = "round_even (x / ?u)"
    have f: "fl64 x = of_int ?n * ?u" using that by (simp add: fl64_def)
    show ?thesis
    proof (cases "?n = 2 ^ 53")
      case True
      have "fl64 x = of_int (2 ^ 52) * pow2 (binade x - 52 + 1)"
        unfolding f True using pow2_add[of "binade x - 52" 1] by (simp add: pow2_def)
      moreover have "fl64 (of_int (2 ^ 52) * pow2 (binade x - 52 + 1)) = of_int (2 ^ 52) * pow2 (binade x - 52 + 1)"
        by (rule fl64_exact_lt) simp
      ultimately show ?thesis by simp
    next
      case False
      with rounded_significand_bounds[OF that] have "\<bar>?n\<bar> < 2 ^ 53" by simp
      from fl64_exact_lt[OF this, of "binade x - 52"] show ?thesis unfolding f .
    qed
  qed
  consider "0 < x" | "x = 0" | "x < 0" by linarith
  then show ?thesis
  proof cases
    case 1
    then show ?thesis by (rule pos)
  next
    case 2
    then show ?thesis by (simp add: fl64_0)
  next
    case 3
    then have "fl64 (fl64 (- x)) = fl64 (- x)" by (intro pos) simp
    then show ?thesis by (simp add: fl64_minus)
  qed
qed

lemma binade_code [code]:
  "binade x = (if x = 0 then 0
               else if 2 \<le> \<bar>x\<bar> then binade (x / 2) + 1
               else if \<bar>x\<bar> < 1 then binade (x * 2) - 1 else 0)"
proof -
  have a: "binade x = binade (x / 2) + 1" if "x \<noteq> 0" for x
  proof (rule binade_unique)
    from that have nz: "x / 2 \<noteq> 0" by simp
    from binade_bounds[OF nz]
    have "pow2 (binade (x / 2)) \<le> \<bar>x\<bar> / 2" "\<bar>x\<bar> / 2 < pow2 (binade (x / 2) + 1)" by simp_all
    then show "pow2 (binade (x / 2) + 1) \<le> \<bar>x\<bar>" "\<bar>x\<bar> < pow2 (binade (x / 2) + 1 + 1)"
      using pow2_add[of "binade (x / 2)" 1] pow2_add[of "binade (x / 2) + 1" 1]
      by (simp_all add: pow2_def[of 1])
  qed
  have b: "binade x = binade (x * 2) - 1" if "x \<noteq> 0" for x
    using a[of "x * 2"] that by simp
  have c: "binade x = 0" if "1 \<le> \<bar>x\<bar>" "\<bar>x\<bar> < 2" for x
    using that by (intro binade_unique) (simp_all add: pow2_def)
  show ?thesis
    using a[of x] b[of x] c[of x] by (auto simp: binade_def)
qed

section \<open>The segment loop\<close>

lemma awaitSegment_fields:
  "currentSegmentIndex (awaitSegment hasBgm D pos seg e s) = Suc (currentSegmentIndex s)"
  "accumulatedTime (awaitSegment hasBgm D pos seg e s) = accountOf (accumulatedTime s) e"
  "isFinished (awaitSegment hasBgm D pos seg e s) = isFinished s"
  "thrown (awaitSegment hasBgm D pos seg e s) = thrown s"
  "progressLog (awaitSegment hasBgm D pos seg e s) = progressLog s"
  "activeSegment (awaitSegment hasBgm D pos seg e s) = activeSegment s"
  "visits (awaitSegment hasBgm D pos seg e s) = visits s @
     [\<lparr> v_index = pos, v_start = accumulatedTime s, v_outcome = outcomeOf hasBgm D (accumulatedTime s) e \<rparr>]"
  by (cases e; simp add: awaitSegment_def accountOf_def outcomeOf_def)+

lemma visitSegment_fields:
  "currentSegmentIndex (visitSegment segs hasBgm D ev s) = Suc (currentSegmentIndex s)"
  "accumulatedTime (visitSegment segs hasBgm D ev s)
     = accountOf (accumulatedTime s) (ev (currentSegmentIndex s))"
  "isFinished (visitSegment segs hasBgm D ev s) = isFinished s"
  "thrown (visitSegment segs hasBgm D ev s) = thrown s"
  "progressLog (visitSegment segs hasBgm D ev s) = progressLog s @ [progressOf hasBgm D (length segs) s]"
  "visits (visitSegment segs hasBgm D ev s) = visits s @
     [\<lparr> v_index = currentSegmentIndex s mod length segs, v_start = accumulatedTime s,
        v_outcome = outcomeOf hasBgm D (accumulatedTime s) (ev (currentSegmentIndex s)) \<rparr>]"
  by (simp_all add: visitSegment_def awaitSegment_fields)

lemma playNextSegment_Suc:
  "playNextSegment (Suc fuel) segs hasBgm D ev s =
     (if loopDone hasBgm D (length segs) s then Some (s\<lparr> isFinished := True \<rparr>)
      else if segs = [] then
        Some (s\<lparr> activeSegment := None,
                 progressLog := progressLog s @ [progressOf hasBgm D (length segs) s],
                 thrown := Some ''TypeError'' \<rparr>)
      else if \<not> isFinished s then playNextSegment fuel segs hasBgm D ev (visitSegment segs hasBgm D ev s)
      else Some (visitSegment segs hasBgm D ev s))"
  by (auto simp: Let_def visitSegment_def awaitSegment_fields loopDone_def)

lemma playNextSegment_0: "playNextSegment 0 segs hasBgm D ev s = None"
  by simp

declare playNextSegment.simps [simp del]

lemma afterVisits_invariant:
  assumes "P s"
    and "\<And>t. P t \<Longrightarrow> \<not> loopDone hasBgm D (length segs) t \<Longrightarrow> P (visitSegment segs hasBgm D ev t)"
  shows "P (afterVisits k segs hasBgm D ev s)"
  using assms(1)
proof (induction k arbitrary: s)
  case 0
  then show ?case by simp
next
  case (Suc k)
  then show ?case by (simp add: assms(2))
qed

lemma afterVisits_isFinished:
  "isFinished (afterVisits k segs hasBgm D ev s) = isFinished s"
  by (induction k arbitrary: s) (simp_all add: visitSegment_fields)

lemma afterVisits_thrown:
  "thrown (afterVisits k segs hasBgm D ev s) = thrown s"
  by (induction k arbitrary: s) (simp_all add: visitSegment_fields)

text \<open>A run that returns has made finitely many visits and then met the finishing test.\<close>

lemma returns_afterVisits:
  assumes "playNextSegment fuel segs hasBgm D ev s = Some s'"
    and "segs \<noteq> []" and "\<not> isFinished s"
  shows "\<exists>k<fuel. s' = (afterVisits k segs hasBgm D ev s)\<lparr> isFinished := True \<rparr>
           \<and> loopDone hasBgm D (length segs) (afterVisits k segs hasBgm D ev s)"
  using assms(1,3)
proof (induction fuel arbitrary: s)
  case 0
  then show ?case by (simp add: playNextSegment_0)
next
  case (Suc fuel)
  show ?case
  proof (cases "loopDone hasBgm D (length segs) s")
    case True
    with Suc.prems have "s' = s\<lparr> isFinished := True \<rparr>" by (simp add: playNextSegment_Suc)
    with True show ?thesis by (intro exI[of _ 0]) simp
  next
    case False
    let ?s2 = "visitSegment segs hasBgm D ev s"
    from False Suc.prems assms(2) have "playNextSegment fuel segs hasBgm D ev ?s2 = Some s'"
      by (simp add: playNextSegment_Suc)
    moreover have "\<not> isFinished ?s2" using Suc.prems(2) by (simp add: visitSegment_fields)
    ultimately obtain k where "k < fuel"
      "s' = (afterVisits k segs hasBgm D ev ?s2)\<lparr> isFinished := True \<rparr>"
      "loopDone hasBgm D (length segs) (afterVisits k segs hasBgm D ev ?s2)"
      using Suc.IH by blast
    with False show ?thesis by (intro exI[of _ "Suc k"]) simp
  qed
qed

text \<open>A run whose finishing test is met after \<open>k\<close> visits returns with more fuel than \<open>k\<close>.\<close>

lemma afterVisits_returns:
  assumes "loopDone hasBgm D (length segs) (afterVisits k segs hasBgm D ev s)"
    and "k < fuel" and "segs \<noteq> []" and "\<not> isFinished s"
  shows "playNextSegment fuel segs hasBgm D ev s
           = Some ((afterVisits k segs hasBgm D ev s)\<lparr> isFinished := True \<rparr>)"
  using assms(1,2,4)
proof (induction k arbitrary: s fuel)
  case 0
  then obtain f where "fuel = Suc f" by (cases fuel) auto
  with 0 show ?case by (simp add: playNextSegment_Suc)
next
  case (Suc k)
  then obtain f where f: "fuel = Suc f" "k < f" by (cases fuel) auto
  show ?case
  proof (cases "loopDone hasBgm D (length segs) s")
    case True
    then show ?thesis by (simp add: f playNextSegment_Suc)
  next
    case False
    let ?s2 = "visitSegment segs hasBgm D ev s"
    have "loopDone hasBgm D (length segs) (afterVisits k segs hasBgm D ev ?s2)"
      using Suc.prems(1) False by simp
    moreover have "\<not> isFinished ?s2" using Suc.prems(3) by (simp add: visitSegment_fields)
    ultimately have "playNextSegment f segs hasBgm D ev ?s2
           = Some ((afterVisits k segs hasBgm D ev ?s2)\<lparr> isFinished := True \<rparr>)"
      using f(2) by (intro Suc.IH)
    with False assms(3) Suc.prems(3) show ?thesis
      by (simp add: f playNextSegment_Suc)
  qed
qed

lemma thrown_unchanged:
  "playNextSegment fuel segs hasBgm D ev s = Some s' \<Longrightarrow> segs \<noteq> [] \<Longrightarrow> thrown s' = thrown s"
proof (induction fuel arbitrary: s)
  case 0
  then show ?case by (simp add: playNextSegment_0)
next
  case (Suc fuel)
  then show ?case
    by (auto simp: playNextSegment_Suc visitSegment_fields split: if_splits)
qed

subsection \<open>The poll\<close>

lemma gapsOk_within: "gapsOk period prev cs d \<Longrightarrow> prev \<le> d \<and> (\<forall>c\<in>set cs. prev \<le> c \<and> c \<le> d)"
proof (induction cs arbitrary: prev)
  case Nil
  then show ?case by simp
next
  case (Cons c cs)
  from Cons.prems have "prev \<le> c" "gapsOk period c cs d" by simp_all
  with Cons.IH[of c] show ?case by fastforce
qed

lemma gapsOk_find:
  assumes "gapsOk period prev cs d" and "prev < t" and "\<forall>c. t \<le> c \<longrightarrow> P c"
  shows "case find P cs of Some c \<Rightarrow> c < t + period | None \<Rightarrow> d < t + period"
  using assms(1,2)
proof (induction cs arbitrary: prev)
  case Nil
  then show ?case by simp
next
  case (Cons c cs)
  show ?case
  proof (cases "P c")
    case True
    with Cons.prems show ?thesis by simp
  next
    case False
    with assms(3) have "c < t" by (meson not_le)
    with Cons.IH[of c] Cons.prems False show ?thesis by simp
  qed
qed

subsection \<open>Visits with a track\<close>

lemma new_visit_ok:
  assumes "acc < D" and "fl64 D = D" and "0 < period"
    and "\<forall>d cs. e = Plays d cs \<longrightarrow> wellPolled period d cs"
    and "ev i = e"
  shows "visitOk D period n ev i \<lparr> v_index = i mod n, v_start = acc, v_outcome = outcomeOf True D acc e \<rparr>"
proof (cases e)
  case (Plays d cs)
  with assms(4) have g: "gapsOk period 0 cs d" by (simp add: wellPolled_def)
  have P: "\<forall>c. D - acc \<le> c \<longrightarrow> D \<le> fl64 (acc + c)"
  proof (intro allI impI)
    fix c assume "D - acc \<le> c"
    then have "D \<le> acc + c" by simp
    from fl64_mono[OF this] show "D \<le> fl64 (acc + c)" by (simp add: assms(2))
  qed
  have t: "0 < D - acc" using assms(1) by simp
  note f = gapsOk_find[OF g t P]
  show ?thesis
  proof (cases "find (\<lambda>c. D \<le> fl64 (acc + c)) cs")
    case None
    with f have "d < D - acc + period" by simp
    moreover from None have "\<forall>c\<in>set cs. fl64 (acc + c) < D"
      by (auto simp: find_None_iff not_le)
    ultimately show ?thesis
      using None Plays assms(1,5)
      by (simp add: visitOk_def outcomeOf_def pollCutoff_def playedTime_def forced_def)
  next
    case (Some c)
    with f have lt: "c < D - acc + period" by simp
    from Some obtain j where j: "j < length cs" "c = cs ! j" "D \<le> fl64 (acc + cs ! j)"
      "\<forall>j'<j. fl64 (acc + cs ! j') < D"
      by (auto simp: find_Some_iff not_le)
    have "\<exists>j<length cs. ForcedStop c = ForcedStop (cs ! j) \<and> D \<le> fl64 (acc + cs ! j)
            \<and> (\<forall>j'<j. fl64 (acc + cs ! j') < D)"
      using j by blast
    with Some lt Plays assms(1,5) show ?thesis
      by (simp add: visitOk_def outcomeOf_def pollCutoff_def playedTime_def forced_def)
  qed
next
  case LoadTimeout
  with assms(1,3,5) show ?thesis by (simp add: visitOk_def outcomeOf_def playedTime_def)
next
  case PlayRejected
  with assms(1,3,5) show ?thesis by (simp add: visitOk_def outcomeOf_def playedTime_def)
next
  case PlaybackError
  with assms(1,3,5) show ?thesis by (simp add: visitOk_def outcomeOf_def playedTime_def)
qed

lemma forced_accounts_past:
  assumes "wellPolled period d cs"
    and "outcomeOf True D acc (Plays d cs) = ForcedStop c"
  shows "D \<le> fl64 (acc + d)"
proof -
  from assms(2) have "find (\<lambda>c. D \<le> fl64 (acc + c)) cs = Some c"
    by (auto simp: outcomeOf_def pollCutoff_def split: option.splits)
  then have "c \<in> set cs" "D \<le> fl64 (acc + c)"
    by (auto simp: find_Some_iff)
  moreover from assms(1) gapsOk_within[of period 0 cs d] \<open>c \<in> set cs\<close> have "c \<le> d"
    by (simp add: wellPolled_def)
  then have "fl64 (acc + c) \<le> fl64 (acc + d)" by (intro fl64_mono) simp
  ultimately show ?thesis by linarith
qed

lemma trackInv_step:
  assumes "trackInv D period (length segs) ev s"
    and "\<not> loopDone True D (length segs) s"
    and "fl64 D = D" and "0 < period"
    and "\<forall>k d cs. ev k = Plays d cs \<longrightarrow> wellPolled period d cs"
  shows "trackInv D period (length segs) ev (visitSegment segs True D ev s)"
proof -
  let ?s2 = "visitSegment segs True D ev s"
  let ?e = "ev (currentSegmentIndex s)"
  let ?v = "\<lparr> v_index = currentSegmentIndex s mod length segs, v_start = accumulatedTime s,
        v_outcome = outcomeOf True D (accumulatedTime s) ?e \<rparr>"
  from assms(2) have lt: "accumulatedTime s < D" by (simp add: loopDone_def)
  from assms(1) have len: "length (visits s) = currentSegmentIndex s"
    and ok: "\<forall>i<length (visits s). visitOk D period (length segs) ev i (visits s ! i)"
    and fl: "\<forall>i<length (visits s). forced (visits s ! i) \<longrightarrow>
            Suc i = length (visits s) \<and> D \<le> accumulatedTime s"
    by (simp_all add: trackInv_def)
  have nof: "\<forall>i<length (visits s). \<not> forced (visits s ! i)"
    using fl lt by fastforce
  have vs: "visits ?s2 = visits s @ [?v]" by (simp add: visitSegment_fields)
  have vok: "visitOk D period (length segs) ev (currentSegmentIndex s) ?v"
    by (rule new_visit_ok[OF lt assms(3,4)]) (use assms(5) in auto)
  have a: "length (visits ?s2) = currentSegmentIndex ?s2"
    using len by (simp add: visitSegment_fields)
  have b: "\<forall>i<length (visits ?s2). visitOk D period (length segs) ev i (visits ?s2 ! i)"
    using ok vok len by (auto simp: vs nth_append less_Suc_eq)
  have c: "D \<le> accumulatedTime ?s2" if "forced ?v"
  proof -
    from that obtain c where oc: "outcomeOf True D (accumulatedTime s) ?e = ForcedStop c"
      by (auto simp: forced_def split: Outcome.splits)
    then obtain d cs where e: "?e = Plays d cs"
      by (cases ?e) (auto simp: outcomeOf_def)
    with assms(5) have "wellPolled period d cs" by blast
    from forced_accounts_past[OF this oc[unfolded e]] show ?thesis
      by (simp add: visitSegment_fields e accountOf_def)
  qed
  have d: "\<forall>i<length (visits ?s2). forced (visits ?s2 ! i) \<longrightarrow>
            Suc i = length (visits ?s2) \<and> D \<le> accumulatedTime ?s2"
    using nof c by (auto simp: vs nth_append less_Suc_eq)
  from a b d show ?thesis by (simp add: trackInv_def)
qed

lemma trackInv_afterVisits:
  assumes "fl64 D = D" and "0 < period"
    and "\<forall>k d cs. ev k = Plays d cs \<longrightarrow> wellPolled period d cs"
  shows "trackInv D period (length segs) ev (afterVisits k segs True D ev initLoop)"
proof (rule afterVisits_invariant)
  show "trackInv D period (length segs) ev initLoop"
    by (simp add: trackInv_def initLoop_def)
next
  fix t
  assume "trackInv D period (length segs) ev t" "\<not> loopDone True D (length segs) t"
  then show "trackInv D period (length segs) ev (visitSegment segs True D ev t)"
    using assms by (intro trackInv_step)
qed

subsection \<open>Termination with a track\<close>

lemma afterVisits_index:
  "\<not> loopDone hasBgm D (length segs) (afterVisits k segs hasBgm D ev s) \<Longrightarrow>
     currentSegmentIndex (afterVisits k segs hasBgm D ev s) = currentSegmentIndex s + k"
proof (induction k arbitrary: s)
  case 0
  then show ?case by simp
next
  case (Suc k)
  show ?case
  proof (cases "loopDone hasBgm D (length segs) s")
    case True
    with Suc.prems show ?thesis by simp
  next
    case False
    with Suc.prems Suc.IH[of "visitSegment segs hasBgm D ev s"] show ?thesis
      by (simp add: visitSegment_fields)
  qed
qed

lemma count_step:
  fixes a m :: nat
  assumes "\<exists>j<m. L (a + j)"
  shows "Suc (card {i. i < a \<and> L i}) \<le> card {i. i < a + m \<and> L i}"
proof -
  from assms obtain j where j: "j < m" "L (a + j)" by blast
  have fin: "finite {i. i < a + m \<and> L i}" by simp
  have "insert (a + j) {i. i < a \<and> L i} \<subseteq> {i. i < a + m \<and> L i}" using j by auto
  from card_mono[OF fin this] show ?thesis by simp
qed

lemma count_plays:
  fixes m :: nat
  assumes "\<forall>k. \<exists>j<m. L (k + j)"
  shows "n \<le> card {i. i < m * n \<and> L i}"
proof (induction n)
  case 0
  then show ?case by simp
next
  case (Suc n)
  from assms have "\<exists>j<m. L (m * n + j)" by blast
  from count_step[OF this] Suc show ?case by (simp add: add.commute)
qed

lemma count_Suc:
  fixes k :: nat
  shows "card {i. i < Suc k \<and> L i} = (if L k then Suc (card {i. i < k \<and> L i}) else card {i. i < k \<and> L i})"
proof -
  have "{i. i < Suc k \<and> L i} = (if L k then insert k {i. i < k \<and> L i} else {i. i < k \<and> L i})"
    by (auto simp: less_Suc_eq)
  then show ?thesis by simp
qed

lemma grid_exact:
  assumes "j < 2 ^ 53"
  shows "fl64 (real j * pow2 e) = real j * pow2 e"
proof -
  have "\<bar>int j\<bar> < 2 ^ 53" using assms by (metis abs_of_nat of_nat_less_iff of_nat_numeral of_nat_power)
  from fl64_exact_lt[OF this, of e] show ?thesis by simp
qed

lemma accounted_lower_step:
  assumes "real (min n p) * pow2 e \<le> acc" and "n < 2 ^ 53"
    and "\<forall>d cs. ev = Plays d cs \<longrightarrow> 0 \<le> d"
  shows "real (min n p) * pow2 e \<le> accountOf acc ev"
    and "(\<exists>d cs. ev = Plays d cs \<and> pow2 e \<le> d) \<Longrightarrow> real (min n (Suc p)) * pow2 e \<le> accountOf acc ev"
proof -
  have mlt: "min n p < 2 ^ 53" using assms(2) by simp
  show "real (min n p) * pow2 e \<le> accountOf acc ev"
  proof (cases ev)
    case (Plays d cs)
    with assms(3) have "0 \<le> d" by simp
    with assms(1) have "real (min n p) * pow2 e \<le> acc + d" by simp
    from fl64_mono[OF this] show ?thesis
      by (simp add: Plays accountOf_def grid_exact[OF mlt])
  qed (use assms(1) in \<open>simp_all add: accountOf_def\<close>)
  assume "\<exists>d cs. ev = Plays d cs \<and> pow2 e \<le> d"
  then obtain d cs where e: "ev = Plays d cs" "pow2 e \<le> d" by blast
  show "real (min n (Suc p)) * pow2 e \<le> accountOf acc ev"
  proof (cases "p < n")
    case True
    then have m: "min n (Suc p) = Suc (min n p)" by simp
    have "Suc (min n p) < 2 ^ 53" using True assms(2) by simp
    note ex = grid_exact[OF this, of e]
    have "real (Suc (min n p)) * pow2 e \<le> acc + d"
      using assms(1) e(2) by (simp add: algebra_simps)
    from fl64_mono[OF this] show ?thesis
      by (simp only: m e accountOf_def SegmentEvent.case ex)
  next
    case False
    then have "min n (Suc p) = min n p" by simp
    with \<open>real (min n p) * pow2 e \<le> accountOf acc ev\<close> show ?thesis by simp
  qed
qed

lemma track_reaches_target:
  assumes "\<forall>k. \<exists>j<m. \<exists>d cs. ev (k + j) = Plays d cs \<and> pow2 e \<le> d"
    and "\<forall>k d cs. ev k = Plays d cs \<longrightarrow> 0 \<le> d"
    and "D \<le> real n * pow2 e" and "n < 2 ^ 53"
  shows "loopDone True D (length segs) (afterVisits (m * n) segs True D ev initLoop)"
proof (rule ccontr)
  let ?L = "\<lambda>i. \<exists>d cs. ev i = Plays d cs \<and> pow2 e \<le> d"
  let ?P = "\<lambda>t :: LoopState. real (min n (card {i. i < currentSegmentIndex t \<and> ?L i})) * pow2 e \<le> accumulatedTime t"
  let ?t = "afterVisits (m * n) segs True D ev initLoop"
  assume nd: "\<not> loopDone True D (length segs) ?t"
  have "?P ?t"
  proof (rule afterVisits_invariant)
    show "?P initLoop" by (simp add: initLoop_def)
  next
    fix t assume P: "?P t"
    have nn: "\<forall>d cs. ev (currentSegmentIndex t) = Plays d cs \<longrightarrow> 0 \<le> d" using assms(2) by blast
    note st = accounted_lower_step[OF P assms(4) nn]
    show "?P (visitSegment segs True D ev t)"
      using st by (auto simp: visitSegment_fields count_Suc)
  qed
  moreover from afterVisits_index[OF nd] have "currentSegmentIndex ?t = m * n"
    by (simp add: initLoop_def)
  moreover have "n \<le> card {i. i < m * n \<and> ?L i}" using assms(1) by (intro count_plays)
  ultimately have "real n * pow2 e \<le> accumulatedTime ?t" by (simp add: min_absorb1)
  with assms(3) nd show False by (simp add: loopDone_def)
qed

subsection \<open>Progress values\<close>

lemma Math_round_mono: "a \<le> b \<Longrightarrow> Math_round a \<le> Math_round b"
  by (simp add: Math_round_def floor_mono)

lemma Math_round_range: "0 \<le> a \<Longrightarrow> 0 \<le> Math_round (min 100 a) \<and> Math_round (min 100 a) \<le> 100"
  unfolding Math_round_def by (auto simp: min_def; linarith)

lemma fl64_nonneg: "0 \<le> x \<Longrightarrow> 0 \<le> fl64 x"
  using fl64_mono[of 0 x] by (simp add: fl64_0)

lemma percent_nonneg: "0 \<le> x \<Longrightarrow> 0 \<le> fl64 (fl64 x * 100)"
  by (intro fl64_nonneg mult_nonneg_nonneg) simp_all

lemma percent_mono: "x \<le> y \<Longrightarrow> fl64 (fl64 x * 100) \<le> fl64 (fl64 y * 100)"
  by (intro fl64_mono mult_right_mono) simp_all

lemma percent_le_100:
  assumes "x \<le> 1"
  shows "fl64 (fl64 x * 100) \<le> 100"
proof -
  have "fl64 (fl64 x * 100) \<le> fl64 (fl64 1 * 100)" using assms by (rule percent_mono)
  also have "\<dots> = 100" using fl64_exact_int[of 1] fl64_exact_int[of 100] by simp
  finally show ?thesis .
qed

lemma progressOf_range:
  assumes "0 \<le> accumulatedTime s" "hasBgm \<longrightarrow> accumulatedTime s < D"
  shows "0 \<le> progressOf hasBgm D n s \<and> progressOf hasBgm D n s \<le> 100"
proof (cases hasBgm)
  case True
  with assms have "0 \<le> accumulatedTime s / D" by auto
  from Math_round_range[OF percent_nonneg[OF this]] True show ?thesis
    by (simp only: progressOf_def if_True)
next
  case False
  have "0 \<le> real (currentSegmentIndex s) / real n" by simp
  from Math_round_range[OF percent_nonneg[OF this]] False show ?thesis
    by (simp only: progressOf_def if_False)
qed

lemma progressOf_mono:
  assumes "accumulatedTime s \<le> accumulatedTime t" "currentSegmentIndex s \<le> currentSegmentIndex t"
    and "hasBgm \<longrightarrow> 0 < D"
  shows "progressOf hasBgm D n s \<le> progressOf hasBgm D n t"
proof (cases hasBgm)
  case True
  with assms have "accumulatedTime s / D \<le> accumulatedTime t / D"
    by (simp add: divide_right_mono)
  from percent_mono[OF this] show ?thesis using True
    by (auto simp: progressOf_def intro!: Math_round_mono min.mono)
next
  case False
  from assms(2) have "real (currentSegmentIndex s) / real n \<le> real (currentSegmentIndex t) / real n"
    by (simp add: divide_right_mono)
  from percent_mono[OF this] show ?thesis using False
    by (auto simp: progressOf_def intro!: Math_round_mono min.mono)
qed

lemma progInv_init: "progInv hasBgm D n initLoop"
  by (simp add: progInv_def initLoop_def fl64_0)

lemma accountOf_grows:
  assumes "\<forall>d cs. e = Plays d cs \<longrightarrow> 0 \<le> d" and "fl64 acc = acc"
  shows "acc \<le> accountOf acc e" and "fl64 (accountOf acc e) = accountOf acc e"
proof -
  show "acc \<le> accountOf acc e"
  proof (cases e)
    case (Plays d cs)
    with assms(1) have "acc \<le> acc + d" by simp
    from fl64_mono[OF this] show ?thesis by (simp add: Plays accountOf_def assms(2))
  qed (simp_all add: accountOf_def)
  show "fl64 (accountOf acc e) = accountOf acc e"
    using assms(2) by (cases e) (simp_all add: accountOf_def fl64_idem)
qed

lemma progInv_append:
  assumes "progInv hasBgm D n s" and "\<not> loopDone hasBgm D n s"
  shows "sorted (progressLog s @ [progressOf hasBgm D n s])"
    and "\<forall>p\<in>set (progressLog s @ [progressOf hasBgm D n s]). 0 \<le> p \<and> p \<le> 100"
proof -
  from assms(2) have lt: "hasBgm \<longrightarrow> accumulatedTime s < D" by (auto simp: loopDone_def)
  from assms(1) have a: "0 \<le> accumulatedTime s" by (simp add: progInv_def)
  note rng = progressOf_range[OF a lt, of n]
  show "sorted (progressLog s @ [progressOf hasBgm D n s])"
    using assms(1) by (auto simp: progInv_def sorted_append)
  show "\<forall>p\<in>set (progressLog s @ [progressOf hasBgm D n s]). 0 \<le> p \<and> p \<le> 100"
    using assms(1) rng by (auto simp: progInv_def)
qed

lemma progInv_step:
  assumes "progInv hasBgm D (length segs) s" and "\<not> loopDone hasBgm D (length segs) s"
    and "\<forall>k d cs. ev k = Plays d cs \<longrightarrow> 0 \<le> d"
  shows "progInv hasBgm D (length segs) (visitSegment segs hasBgm D ev s)"
proof -
  let ?s2 = "visitSegment segs hasBgm D ev s"
  from assms(1) have a: "0 \<le> accumulatedTime s" "fl64 (accumulatedTime s) = accumulatedTime s"
    by (simp_all add: progInv_def)
  from assms(2) have lt: "hasBgm \<longrightarrow> accumulatedTime s < D" by (auto simp: loopDone_def)
  with a(1) have Dpos: "hasBgm \<longrightarrow> 0 < D" by auto
  have nn: "\<forall>d cs. ev (currentSegmentIndex s) = Plays d cs \<longrightarrow> 0 \<le> d" using assms(3) by blast
  note g = accountOf_grows[OF nn a(2)]
  have acc2: "accumulatedTime s \<le> accumulatedTime ?s2" using g(1) by (simp add: visitSegment_fields)
  have mono: "progressOf hasBgm D (length segs) s \<le> progressOf hasBgm D (length segs) ?s2"
    by (rule progressOf_mono[OF acc2 _ Dpos]) (simp add: visitSegment_fields)
  note ap = progInv_append[OF assms(1,2)]
  show ?thesis
    using acc2 a g(2) ap mono assms(1)
    by (auto simp: progInv_def visitSegment_fields)
qed

lemma progInv_afterVisits:
  assumes "\<forall>k d cs. ev k = Plays d cs \<longrightarrow> 0 \<le> d"
  shows "progInv hasBgm D (length segs) (afterVisits k segs hasBgm D ev initLoop)"
  by (rule afterVisits_invariant) (simp_all add: progInv_init progInv_step assms)

lemma progress_of_run:
  assumes "playNextSegment fuel segs hasBgm D ev s = Some s'"
    and "\<forall>k d cs. ev k = Plays d cs \<longrightarrow> 0 \<le> d"
    and "progInv hasBgm D (length segs) s"
  shows "sorted (progressLog s') \<and> (\<forall>p\<in>set (progressLog s'). 0 \<le> p \<and> p \<le> 100)"
  using assms(1,3)
proof (induction fuel arbitrary: s)
  case 0
  then show ?case by (simp add: playNextSegment_0)
next
  case (Suc fuel)
  show ?case
  proof (cases "loopDone hasBgm D (length segs) s")
    case True
    with Suc.prems(1) have "s' = s\<lparr> isFinished := True \<rparr>" by (simp add: playNextSegment_Suc)
    with Suc.prems(2) show ?thesis by (auto simp: progInv_def)
  next
    case False
    note ap = progInv_append[OF Suc.prems(2) False]
    show ?thesis
    proof (cases "segs = []")
      case True
      with False Suc.prems(1)
      have "progressLog s' = progressLog s @ [progressOf hasBgm D (length segs) s]"
        by (auto simp: playNextSegment_Suc)
      with ap show ?thesis by simp
    next
      case ne: False
      let ?s2 = "visitSegment segs hasBgm D ev s"
      note inv2 = progInv_step[OF Suc.prems(2) False assms(2)]
      show ?thesis
      proof (cases "isFinished s")
        case True
        with False ne Suc.prems(1) have "s' = ?s2" by (simp add: playNextSegment_Suc)
        with inv2 show ?thesis by (auto simp: progInv_def)
      next
        case nf: False
        with False ne Suc.prems(1) have "playNextSegment fuel segs hasBgm D ev ?s2 = Some s'"
          by (simp add: playNextSegment_Suc)
        from Suc.IH[OF this inv2] show ?thesis .
      qed
    qed
  qed
qed

subsection \<open>Without a track\<close>

lemma outcomeOf_trackless: "outcomeOf False D acc e = outcomeOf False 0 0 e"
  by (simp add: outcomeOf_def pollCutoff_def split: SegmentEvent.splits)

lemma trackless_done:
  "loopDone False D (length segs) (afterVisits (length segs) segs False D ev initLoop)"
proof (rule ccontr)
  assume nd: "\<not> loopDone False D (length segs) (afterVisits (length segs) segs False D ev initLoop)"
  from afterVisits_index[OF nd] have "currentSegmentIndex (afterVisits (length segs) segs False D ev initLoop)
      = length segs" by (simp add: initLoop_def)
  with nd show False by (simp add: loopDone_def)
qed

lemma trackless_returns:
  assumes "length segs < fuel"
  shows "\<exists>s'. playNextSegment fuel segs False D ev initLoop = Some s'"
proof (cases "segs = []")
  case True
  from assms obtain f where "fuel = Suc f" by (cases fuel) auto
  with True show ?thesis by (simp add: playNextSegment_Suc loopDone_def initLoop_def)
next
  case False
  have "\<not> isFinished initLoop" by (simp add: initLoop_def)
  from afterVisits_returns[OF trackless_done assms False this] show ?thesis by blast
qed

lemma trackless_result:
  assumes "playNextSegment fuel segs False D ev s = Some s'"
    and "\<not> isFinished s" and "currentSegmentIndex s \<le> length segs"
  shows "isFinished s' \<and> currentSegmentIndex s' = length segs
       \<and> progressLog s' = progressLog s
            @ map (\<lambda>k. Math_round (fl64 (fl64 (real k / real (length segs)) * 100)))
                [currentSegmentIndex s..<length segs]
       \<and> map v_index (visits s') = map v_index (visits s) @ [currentSegmentIndex s..<length segs]
       \<and> map v_outcome (visits s') = map v_outcome (visits s)
            @ map (\<lambda>k. outcomeOf False 0 0 (ev k)) [currentSegmentIndex s..<length segs]"
  using assms
proof (induction fuel arbitrary: s)
  case 0
  then show ?case by (simp add: playNextSegment_0)
next
  case (Suc fuel)
  show ?case
  proof (cases "length segs \<le> currentSegmentIndex s")
    case True
    with Suc.prems have "s' = s\<lparr> isFinished := True \<rparr>" "currentSegmentIndex s = length segs"
      by (simp_all add: playNextSegment_Suc loopDone_def)
    then show ?thesis by simp
  next
    case False
    then have ne: "segs \<noteq> []" and lt: "currentSegmentIndex s < length segs" by auto
    let ?s2 = "visitSegment segs False D ev s"
    from False ne Suc.prems have run: "playNextSegment fuel segs False D ev ?s2 = Some s'"
      by (simp add: playNextSegment_Suc loopDone_def)
    have a: "\<not> isFinished ?s2" "currentSegmentIndex ?s2 \<le> length segs"
      using Suc.prems lt by (simp_all add: visitSegment_fields)
    have upt: "[currentSegmentIndex s..<length segs]
                 = currentSegmentIndex s # [Suc (currentSegmentIndex s)..<length segs]"
      using lt by (simp add: upt_conv_Cons)
    have "real (currentSegmentIndex s) / real (length segs) \<le> 1"
      using lt by (simp add: divide_le_eq_1)
    from percent_le_100[OF this]
    have p: "progressOf False D (length segs) s
             = Math_round (fl64 (fl64 (real (currentSegmentIndex s) / real (length segs)) * 100))"
      by (simp add: progressOf_def min_def)
    have m: "currentSegmentIndex s mod length segs = currentSegmentIndex s"
      using lt by simp
    from Suc.IH[OF run a] show ?thesis
      unfolding upt
      by (simp add: visitSegment_fields p m outcomeOf_trackless[of D])
  qed
qed

section \<open>Track-bound export: the cutoff\<close>

text \<open>
  C1 (as amended). An export with a background track of duration \<open>D\<close> (a double)
  attached and decoded, of a composition with at least one segment, polled with period
  \<open>period\<close> (100 ms in the source). At every moment of the segment loop, that is after
  any number of visits, whether or not the loop ever ends, every visit made so far
  \<^item> took the segment at the visit number modulo the number of segments;
  \<^item> started while the accounted time was below \<open>D\<close>;
  \<^item> played its clip for less than one poll period beyond \<open>D\<close>: start plus played
    time is below \<open>D + period\<close>;
  \<^item> if it was cut off, is the last visit, and the accounted time has then reached \<open>D\<close>;
  \<^item> ended as its event says: a timeout, a rejected \<open>play()\<close> and an error as such; a
    playing clip either to its natural end, when no poll reading \<open>c\<close> satisfied
    \<open>accumulatedTime + c >= D\<close> in doubles, or at the first poll reading that did; and
    a clip that would have lasted to \<open>D + period\<close> or beyond is cut off.

  The loop returns: when among any \<open>m\<close> consecutive visits one plays a clip of at least
  \<open>2 ^ e\<close> seconds and \<open>D\<close> is at most \<open>n * 2 ^ e\<close>, it ends after at most \<open>m * n\<close>
  visits, with the accounted time at least \<open>D\<close>.
\<close>

theorem track_cutoff_policy:
  assumes "segs \<noteq> []"
    and "fl64 (bgm_duration track) = bgm_duration track"
    and "0 < period"
    and "\<forall>k d cs. ev k = Plays d cs \<longrightarrow> wellPolled period d cs"
  shows "(\<forall>k. let s = afterVisits k segs True (totalDurationOf (Some track) True) ev initLoop in
            \<forall>i<length (visits s).
                v_index (visits s ! i) = i mod length segs
              \<and> v_start (visits s ! i) < bgm_duration track
              \<and> v_start (visits s ! i) + playedTime (v_outcome (visits s ! i))
                  < bgm_duration track + period
              \<and> (forced (visits s ! i) \<longrightarrow>
                   Suc i = length (visits s) \<and> bgm_duration track \<le> accumulatedTime s)
              \<and> (case ev i of
                    Plays d cs \<Rightarrow>
                      ((v_outcome (visits s ! i) = EndedNaturally d
                          \<and> (\<forall>c\<in>set cs. fl64 (v_start (visits s ! i) + c) < bgm_duration track))
                       \<or> (\<exists>j<length cs. v_outcome (visits s ! i) = ForcedStop (cs ! j)
                              \<and> bgm_duration track \<le> fl64 (v_start (visits s ! i) + cs ! j)
                              \<and> (\<forall>j'<j. fl64 (v_start (visits s ! i) + cs ! j') < bgm_duration track)))
                      \<and> (bgm_duration track + period \<le> v_start (visits s ! i) + d
                           \<longrightarrow> forced (visits s ! i))
                  | LoadTimeout \<Rightarrow> v_outcome (visits s ! i) = TimedOut
                  | PlayRejected \<Rightarrow> v_outcome (visits s ! i) = PlayFailed
                  | PlaybackError \<Rightarrow> v_outcome (visits s ! i) = Errored))
       \<and> ((\<forall>k. \<exists>j<m. \<exists>d cs. ev (k + j) = Plays d cs \<and> pow2 e \<le> d)
            \<and> bgm_duration track \<le> real n * pow2 e \<and> n < 2 ^ 53 \<and> m * n < fuel \<longrightarrow>
            playNextSegment fuel segs True (totalDurationOf (Some track) True) ev initLoop
              = Some ((afterVisits (m * n) segs True (totalDurationOf (Some track) True) ev initLoop)
                        \<lparr> isFinished := True \<rparr>)
            \<and> bgm_duration track
                \<le> accumulatedTime (afterVisits (m * n) segs True (totalDurationOf (Some track) True) ev initLoop))"
proof -
  let ?D = "bgm_duration track"
  have D: "totalDurationOf (Some track) True = ?D" by (simp add: totalDurationOf_def)
  have nonneg: "\<forall>k d cs. ev k = Plays d cs \<longrightarrow> 0 \<le> d"
    using assms(4) gapsOk_within[of period 0] by (fastforce simp: wellPolled_def)
  have A: "trackInv ?D period (length segs) ev (afterVisits k segs True ?D ev initLoop)" for k
    by (rule trackInv_afterVisits[OF assms(2,3,4)])
  have B: "playNextSegment fuel segs True ?D ev initLoop
              = Some ((afterVisits (m * n) segs True ?D ev initLoop)\<lparr> isFinished := True \<rparr>)
            \<and> ?D \<le> accumulatedTime (afterVisits (m * n) segs True ?D ev initLoop)"
    if h: "\<forall>k. \<exists>j<m. \<exists>d cs. ev (k + j) = Plays d cs \<and> pow2 e \<le> d"
      "?D \<le> real n * pow2 e" "n < 2 ^ 53" "m * n < fuel"
  proof -
    have dn: "loopDone True ?D (length segs) (afterVisits (m * n) segs True ?D ev initLoop)"
      by (rule track_reaches_target[OF h(1) nonneg h(2,3)])
    have "\<not> isFinished initLoop" by (simp add: initLoop_def)
    from afterVisits_returns[OF dn h(4) assms(1) this] dn show ?thesis
      by (simp add: loopDone_def)
  qed
  show ?thesis
    unfolding D using A B
    by (simp add: trackInv_def visitOk_def Let_def)
qed

text \<open>
  The claim as first stated fails on both counts. For a track of 2 s and one clip of
  1.5 s, polled from 0.05 s every 0.1 s: the second visit is stopped at clip time 0.55 s,
  that is 2.05 s after the start and not at 2 s, and \<open>onended\<close> adds the whole
  \<open>video.duration\<close>, so the accounted time ends at 3 s, above the 2 s of the track.
\<close>

theorem track_accounting_counterexample:
  "map_option (\<lambda>s. (accumulatedTime s, map v_outcome (visits s)))
     (playNextSegment 5 [exampleClip ''a''] True (totalDurationOf (Some (exampleTrack 2)) True)
        (\<lambda>k. Plays (3/2) examplePoll) initLoop)
     = Some (3, [EndedNaturally (3/2), ForcedStop (11/20)])
   \<and> (3::real) > bgm_duration (exampleTrack 2)
   \<and> (3/2 + 11/20 :: real) \<noteq> bgm_duration (exampleTrack 2)"
  by code_simp

lemma track_example_prefix:
  "afterVisits (1 * 4) [exampleClip ''a''] True (totalDurationOf (Some (exampleTrack 2)) True)
        (\<lambda>k. Plays (3/2) examplePoll) initLoop
   = \<lparr> currentSegmentIndex = 2, accumulatedTime = 3, isFinished = False,
       activeSegment = Some (exampleClip ''a''), progressLog = [0, 75], consoleLog = [],
       visits = [\<lparr> v_index = 0, v_start = 0, v_outcome = EndedNaturally (3/2) \<rparr>,
                 \<lparr> v_index = 0, v_start = 3/2, v_outcome = ForcedStop (11/20) \<rparr>],
       thrown = None \<rparr>"
  by code_simp

theorem track_cutoff_policy_witness:
  "playNextSegment 5 [exampleClip ''a''] True (totalDurationOf (Some (exampleTrack 2)) True)
        (\<lambda>k. Plays (3/2) examplePoll) initLoop
     = Some \<lparr> currentSegmentIndex = 2, accumulatedTime = 3, isFinished = True,
              activeSegment = Some (exampleClip ''a''), progressLog = [0, 75], consoleLog = [],
              visits = [\<lparr> v_index = 0, v_start = 0, v_outcome = EndedNaturally (3/2) \<rparr>,
                        \<lparr> v_index = 0, v_start = 3/2, v_outcome = ForcedStop (11/20) \<rparr>],
              thrown = None \<rparr>
   \<and> bgm_duration (exampleTrack 2) \<le> 3
   \<and> (3/2 :: real) < bgm_duration (exampleTrack 2)
   \<and> (3/2 + 11/20 :: real) < bgm_duration (exampleTrack 2) + 1/10"
proof -
  let ?ev = "\<lambda>k::nat. Plays (3/2) examplePoll"
  have h1: "[exampleClip ''a''] \<noteq> []" by simp
  have h2: "fl64 (bgm_duration (exampleTrack 2)) = bgm_duration (exampleTrack 2)"
    using fl64_exact_int[of 2] by (simp add: exampleTrack_def)
  have h3: "(0::real) < 1/10" by simp
  have h4: "\<forall>k d cs. ?ev k = Plays d cs \<longrightarrow> wellPolled (1/10) d cs"
    by (simp add: wellPolled_def examplePoll_def)
  have "pow2 (- 1) \<le> 3/2" by (simp add: pow2_def)
  then have h5: "\<forall>k. \<exists>j<1. \<exists>d cs. ?ev (k + j) = Plays d cs \<and> pow2 (- 1) \<le> d"
    by blast
  have h6: "bgm_duration (exampleTrack 2) \<le> real 4 * pow2 (- 1)"
    by (simp add: exampleTrack_def pow2_def)
  have h7: "(4::nat) < 2 ^ 53" by simp
  have h8: "1 * 4 < (5::nat)" by simp
  from track_cutoff_policy[OF h1 h2 h3 h4, of 1 "- 1" 4 5] h5 h6 h7 h8
  have "playNextSegment 5 [exampleClip ''a''] True (totalDurationOf (Some (exampleTrack 2)) True) ?ev initLoop
          = Some ((afterVisits (1 * 4) [exampleClip ''a''] True
                     (totalDurationOf (Some (exampleTrack 2)) True) ?ev initLoop)\<lparr> isFinished := True \<rparr>)
        \<and> bgm_duration (exampleTrack 2)
            \<le> accumulatedTime (afterVisits (1 * 4) [exampleClip ''a''] True
                     (totalDurationOf (Some (exampleTrack 2)) True) ?ev initLoop)"
    by blast
  then show ?thesis
    unfolding track_example_prefix by (simp add: exampleTrack_def)
qed

section \<open>Export jobs\<close>

lemma handleExport_accepted:
  assumes "\<not> (isExporting st \<and> \<not> isBatch)"
    and "handleExport fuel env c isBatch st = Some (st', rep)"
  shows "\<exists>l. playNextSegment fuel (comp_segments c) (bgm st \<noteq> None)
               (totalDurationOf (bgm st) (bgmDecodes env)) (segmentEvents env) initLoop = Some l
           \<and> job_loop rep = Some l
           \<and> job_emitted rep = [0] @ progressLog l @ [0]
           \<and> job_outcome rep = (case thrown l of
                                Some e \<Rightarrow> Failed e
                              | None \<Rightarrow> if filter (\<lambda>size. size > 0) (recordedData env) = []
                                        then Failed noDataMessage
                                        else Downloaded (downloadName c env) (negotiateMimeType env))
           \<and> st' = st\<lparr> isExporting := (if isBatch then isExporting st else False), exportProgress := 0 \<rparr>"
  using assms
  by (auto simp: handleExport_def Let_def split: option.splits if_splits)

lemma no_chunks_iff: "filter (\<lambda>size. size > 0) (xs :: nat list) = [] \<longleftrightarrow> sum_list xs = 0"
  by (induction xs) auto

lemma handleExport_trackless_returns:
  assumes "bgm st = None" and "length (comp_segments c) < fuel"
  shows "\<exists>st' rep. handleExport fuel env c isBatch st = Some (st', rep)"
proof -
  from trackless_returns[OF assms(2)]
  obtain l where "playNextSegment fuel (comp_segments c) False
      (totalDurationOf (bgm st) (bgmDecodes env)) (segmentEvents env) initLoop = Some l"
    by blast
  then show ?thesis
    using assms(1) by (simp add: handleExport_def Let_def)
qed

text \<open>
  The progress is computed in doubles: for the 24th of 40 segments the quotient
  \<open>23 / 40\<close> is rounded down, the product with 100 is 57.49999999999999 and
  \<open>Math.round\<close> gives 57, where exact arithmetic would give 57.5 and 58.
\<close>

lemma progress_in_doubles:
  "progressOf False 999999 40 (initLoop\<lparr> currentSegmentIndex := 23 \<rparr>) = 57
   \<and> Math_round (real 23 / real 40 * 100) = 58"
  by code_simp

text \<open>
  C5 (as amended). For every export job that is not rejected, with clips of non-negative
  duration, \<open>setExportProgress\<close> is called with 0, then once at the start of every visit
  of a segment, and with 0 again when the job ends. At every moment of the segment loop
  (after any number of visits, whether or not the loop ever ends) the values passed so
  far are integers between 0 and 100 and non-decreasing. When the job returns, all values
  are between 0 and 100, they are non-decreasing up to the last update of the loop, and
  the last value of all is the 0 of the \<open>finally\<close> block, which is also the progress
  left in the state. For \<open>N\<close> segments without a background track the job returns and
  its updates are 0, then \<open>Math.round((k / N) * 100)\<close> computed in doubles for
  \<open>k = 0, ..., N - 1\<close>, then 0.
\<close>

theorem export_progress_updates:
  assumes "\<not> (isExporting st \<and> \<not> isBatch)"
    and "\<forall>k d cs. segmentEvents env k = Plays d cs \<longrightarrow> 0 \<le> d"
  shows "(comp_segments c \<noteq> [] \<longrightarrow>
            (\<forall>k. let s = afterVisits k (comp_segments c) (bgm st \<noteq> None)
                            (totalDurationOf (bgm st) (bgmDecodes env)) (segmentEvents env) initLoop
                 in sorted (0 # progressLog s) \<and> (\<forall>p\<in>set (progressLog s). 0 \<le> p \<and> p \<le> 100)))
       \<and> (\<forall>st' rep. handleExport fuel env c isBatch st = Some (st', rep) \<longrightarrow>
              (\<forall>p\<in>set (job_emitted rep). 0 \<le> p \<and> p \<le> 100)
            \<and> sorted (butlast (job_emitted rep))
            \<and> last (job_emitted rep) = 0
            \<and> exportProgress st' = 0)
       \<and> (bgm st = None \<and> length (comp_segments c) < fuel \<longrightarrow>
            (\<exists>st' rep. handleExport fuel env c isBatch st = Some (st', rep)
               \<and> job_emitted rep =
                   [0] @ map (\<lambda>k. Math_round (fl64 (fl64 (real k / real (length (comp_segments c))) * 100)))
                             [0..<length (comp_segments c)] @ [0]))"
proof -
  let ?D = "totalDurationOf (bgm st) (bgmDecodes env)"
  have A: "sorted (0 # progressLog (afterVisits k (comp_segments c) (bgm st \<noteq> None) ?D (segmentEvents env) initLoop))
         \<and> (\<forall>p\<in>set (progressLog (afterVisits k (comp_segments c) (bgm st \<noteq> None) ?D (segmentEvents env) initLoop)).
               0 \<le> p \<and> p \<le> 100)" for k
    using progInv_afterVisits[OF assms(2), of "bgm st \<noteq> None" ?D "comp_segments c" k]
    by (simp add: progInv_def)
  have B: "(\<forall>p\<in>set (job_emitted rep). 0 \<le> p \<and> p \<le> 100)
            \<and> sorted (butlast (job_emitted rep))
            \<and> last (job_emitted rep) = 0
            \<and> exportProgress st' = 0"
    if h: "handleExport fuel env c isBatch st = Some (st', rep)" for st' rep
  proof -
    from handleExport_accepted[OF assms(1) h] obtain l where
      run: "playNextSegment fuel (comp_segments c) (bgm st \<noteq> None) ?D (segmentEvents env) initLoop = Some l"
      and em: "job_emitted rep = [0] @ progressLog l @ [0]"
      and st': "st' = st\<lparr> isExporting := (if isBatch then isExporting st else False), exportProgress := 0 \<rparr>"
      by blast
    have "sorted (progressLog l) \<and> (\<forall>p\<in>set (progressLog l). 0 \<le> p \<and> p \<le> 100)"
      by (rule progress_of_run[OF run assms(2) progInv_init])
    then show ?thesis
      unfolding em st' by (auto simp: butlast_append)
  qed
  have C: "\<exists>st' rep. handleExport fuel env c isBatch st = Some (st', rep)
               \<and> job_emitted rep =
                   [0] @ map (\<lambda>k. Math_round (fl64 (fl64 (real k / real (length (comp_segments c))) * 100)))
                             [0..<length (comp_segments c)] @ [0]"
    if h: "bgm st = None" "length (comp_segments c) < fuel"
  proof -
    from handleExport_trackless_returns[OF h] obtain st' rep where
      r: "handleExport fuel env c isBatch st = Some (st', rep)" by blast
    from handleExport_accepted[OF assms(1) r] obtain l where
      run: "playNextSegment fuel (comp_segments c) (bgm st \<noteq> None) ?D (segmentEvents env) initLoop = Some l"
      and em: "job_emitted rep = [0] @ progressLog l @ [0]"
      by blast
    from run h(1) have "playNextSegment fuel (comp_segments c) False ?D (segmentEvents env) initLoop = Some l"
      by simp
    from trackless_result[OF this] have "progressLog l
        = map (\<lambda>k. Math_round (fl64 (fl64 (real k / real (length (comp_segments c))) * 100)))
              [0..<length (comp_segments c)]"
      by (simp add: initLoop_def)
    with r em show ?thesis by auto
  qed
  from A B C show ?thesis by (simp only: Let_def) blast
qed

text \<open>
  The claim as first stated (monotone throughout, final progress 100) fails for three
  clips without a track: the updates are 0, 0, 33, 67, 0.
\<close>

theorem export_progress_counterexample:
  "map_option (\<lambda>r. job_emitted (snd r))
     (handleExport 4 (exampleEnv True (\<lambda>k. Plays 5 [1, 2, 3, 4]) [1000])
        (exampleComposition [exampleClip ''a'', exampleClip ''b'', exampleClip ''c'']) False
        (exampleApp None False 0 False))
   = Some [0, 0, 33, 67, 0]
   \<and> last [0, 0, 33, 67, 0] \<noteq> (100 :: int)
   \<and> \<not> sorted [0, 0, 33, 67, 0 :: int]"
  by code_simp

lemma export_example_updates:
  "map (\<lambda>k. Math_round (fl64 (fl64 (real k / real (length [exampleClip ''a'', exampleClip ''b'', exampleClip ''c''])) * 100)))
       [0..<length [exampleClip ''a'', exampleClip ''b'', exampleClip ''c'']] = [0, 33, 67]"
  by code_simp

theorem export_progress_updates_witness:
  "\<exists>st' rep. handleExport 4 (exampleEnv True (\<lambda>k. Plays 5 [1, 2, 3, 4]) [1000])
        (exampleComposition [exampleClip ''a'', exampleClip ''b'', exampleClip ''c'']) False
        (exampleApp None False 0 False) = Some (st', rep)
     \<and> job_emitted rep = [0, 0, 33, 67, 0]
     \<and> sorted (butlast (job_emitted rep))
     \<and> last (job_emitted rep) = 0
     \<and> exportProgress st' = 0"
proof -
  let ?env = "exampleEnv True (\<lambda>k. Plays 5 [1, 2, 3, 4]) [1000]"
  let ?c = "exampleComposition [exampleClip ''a'', exampleClip ''b'', exampleClip ''c'']"
  let ?st = "exampleApp None False 0 False"
  have h1: "\<not> (isExporting ?st \<and> \<not> False)"
    by (simp add: exampleApp_def)
  have h2: "\<forall>k d cs. segmentEvents ?env k = Plays d cs \<longrightarrow> 0 \<le> d"
    by (simp add: exampleEnv_def)
  have h3: "bgm ?st = None \<and> length (comp_segments ?c) < 4"
    by (simp add: exampleApp_def exampleComposition_def)
  have segs: "comp_segments ?c = [exampleClip ''a'', exampleClip ''b'', exampleClip ''c'']"
    by (simp add: exampleComposition_def)
  note inst = export_progress_updates[OF h1 h2, of ?c 4]
  from inst h3 obtain st' rep where
    r: "handleExport 4 ?env ?c False ?st = Some (st', rep)"
    and em: "job_emitted rep =
                   [0] @ map (\<lambda>k. Math_round (fl64 (fl64 (real k / real (length (comp_segments ?c))) * 100)))
                             [0..<length (comp_segments ?c)] @ [0]"
    by blast
  from em have em': "job_emitted rep = [0, 0, 33, 67, 0]"
    unfolding segs export_example_updates by simp
  from inst r have "sorted (butlast (job_emitted rep)) \<and> last (job_emitted rep) = 0 \<and> exportProgress st' = 0"
    by blast
  with r em' show ?thesis by blast
qed

subsection \<open>A track and no segment that plays\<close>

text \<open>
  With a track attached, the accounted time grows only in \<open>onended\<close>. A visit that ends
  in a load timeout, a rejected \<open>play()\<close> or a playback error leaves it as it is, so
  when no visit ever plays, the finishing test \<open>accumulatedTime >= totalDuration\<close> is
  never met: the loop does not return, whatever the fuel.
\<close>

lemma track_without_play_never_returns:
  assumes "\<forall>k d cs. ev k \<noteq> Plays d cs"
  shows "accumulatedTime s < D \<Longrightarrow> segs \<noteq> [] \<Longrightarrow> \<not> isFinished s \<Longrightarrow>
     playNextSegment fuel segs True D ev s = None"
proof (induction fuel arbitrary: s)
  case 0
  then show ?case by (simp add: playNextSegment_0)
next
  case (Suc fuel)
  have "accountOf (accumulatedTime s) (ev (currentSegmentIndex s)) = accumulatedTime s"
    using assms by (cases "ev (currentSegmentIndex s)") (simp_all add: accountOf_def)
  then have "playNextSegment fuel segs True D ev (visitSegment segs True D ev s) = None"
    using Suc.prems by (intro Suc.IH) (simp_all add: visitSegment_fields)
  with Suc.prems show ?case by (simp add: playNextSegment_Suc loopDone_def)
qed

lemma handleExport_track_without_play:
  assumes "\<forall>k d cs. segmentEvents env k \<noteq> Plays d cs"
    and "bgm st = Some track" and "0 < totalDurationOf (bgm st) (bgmDecodes env)"
    and "comp_segments c \<noteq> []" and "\<not> (isExporting st \<and> \<not> isBatch)"
  shows "handleExport fuel env c isBatch st = None"
proof -
  have "playNextSegment fuel (comp_segments c) True (totalDurationOf (bgm st) (bgmDecodes env))
          (segmentEvents env) initLoop = None"
    by (rule track_without_play_never_returns[OF assms(1)])
       (simp_all add: initLoop_def assms(3,4))
  with assms(2,5) show ?thesis by (auto simp: handleExport_def Let_def)
qed

subsection \<open>Finalization\<close>

lemma finalization_outcome:
  assumes "comp_segments c \<noteq> []"
    and "\<not> (isExporting st \<and> \<not> isBatch)"
    and "handleExport fuel env c isBatch st = Some (st', rep)"
  shows "job_outcome rep = (if sum_list (recordedData env) = 0 then Failed noDataMessage
                            else Downloaded (downloadName c env) (negotiateMimeType env))"
    and "job_alert rep \<longleftrightarrow> sum_list (recordedData env) = 0 \<and> \<not> isBatch"
proof -
  from handleExport_accepted[OF assms(2,3)] obtain l where
    run: "playNextSegment fuel (comp_segments c) (bgm st \<noteq> None)
               (totalDurationOf (bgm st) (bgmDecodes env)) (segmentEvents env) initLoop = Some l"
    and oc: "job_outcome rep = (case thrown l of
                                Some e \<Rightarrow> Failed e
                              | None \<Rightarrow> if filter (\<lambda>size. size > 0) (recordedData env) = []
                                        then Failed noDataMessage
                                        else Downloaded (downloadName c env) (negotiateMimeType env))"
    by blast
  from thrown_unchanged[OF run assms(1)] have th: "thrown l = None"
    by (simp add: initLoop_def)
  have al: "job_alert rep \<longleftrightarrow> (case job_outcome rep of Failed e \<Rightarrow> True | _ \<Rightarrow> False) \<and> \<not> isBatch"
    using assms(2,3) by (auto simp: handleExport_def Let_def split: option.splits if_splits)
  show "job_outcome rep = (if sum_list (recordedData env) = 0 then Failed noDataMessage
                            else Downloaded (downloadName c env) (negotiateMimeType env))"
    using oc unfolding th by (auto simp: no_chunks_iff)
  then show "job_alert rep \<longleftrightarrow> sum_list (recordedData env) = 0 \<and> \<not> isBatch"
    using al by auto
qed

text \<open>
  Without a track the job always reaches finalization (with more fuel than segments), and
  there the empty recording is the one condition that fails it.
\<close>

lemma trackless_finalization:
  assumes "bgm st = None" and "comp_segments c \<noteq> []" and "length (comp_segments c) < fuel"
    and "\<not> (isExporting st \<and> \<not> isBatch)"
  shows "\<exists>st' rep. handleExport fuel env c isBatch st = Some (st', rep)
           \<and> job_outcome rep = (if sum_list (recordedData env) = 0 then Failed noDataMessage
                                 else Downloaded (downloadName c env) (negotiateMimeType env))
           \<and> (job_alert rep \<longleftrightarrow> sum_list (recordedData env) = 0 \<and> \<not> isBatch)"
proof -
  from handleExport_trackless_returns[OF assms(1,3)] obtain st' rep where
    r: "handleExport fuel env c isBatch st = Some (st', rep)" by blast
  from finalization_outcome[OF assms(2,4) r] r show ?thesis by blast
qed

text \<open>
  With a track, the job reaches finalization (and fails there exactly on an empty
  recording) when among any \<open>m\<close> consecutive visits one plays a clip of at least
  \<open>2 ^ e\<close> seconds, for a track of at most \<open>n * 2 ^ e\<close> seconds.
\<close>

lemma track_finalization:
  assumes "bgm st = Some track" and "comp_segments c \<noteq> []"
    and "\<not> (isExporting st \<and> \<not> isBatch)"
    and "\<forall>k. \<exists>j<m. \<exists>d cs. segmentEvents env (k + j) = Plays d cs \<and> pow2 e \<le> d"
    and "\<forall>k d cs. segmentEvents env k = Plays d cs \<longrightarrow> 0 \<le> d"
    and "totalDurationOf (bgm st) (bgmDecodes env) \<le> real n * pow2 e" and "n < 2 ^ 53" and "m * n < fuel"
  shows "\<exists>st' rep. handleExport fuel env c isBatch st = Some (st', rep)
           \<and> job_outcome rep = (if sum_list (recordedData env) = 0 then Failed noDataMessage
                                 else Downloaded (downloadName c env) (negotiateMimeType env))
           \<and> (job_alert rep \<longleftrightarrow> sum_list (recordedData env) = 0 \<and> \<not> isBatch)"
proof -
  let ?D = "totalDurationOf (bgm st) (bgmDecodes env)"
  have dn: "loopDone True ?D (length (comp_segments c))
              (afterVisits (m * n) (comp_segments c) True ?D (segmentEvents env) initLoop)"
    by (rule track_reaches_target[OF assms(4,5,6,7)])
  have "\<not> isFinished initLoop" by (simp add: initLoop_def)
  from afterVisits_returns[OF dn assms(8,2) this] assms(1,3)
  obtain st' rep where r: "handleExport fuel env c isBatch st = Some (st', rep)"
    by (auto simp: handleExport_def Let_def)
  from finalization_outcome[OF assms(2,3) r] r show ?thesis by blast
qed

text \<open>
  C6 (evaluation at the failing input). A track of 30 s is attached and decoded; the
  composition has two segments, of which the first always times out while loading and
  the second always raises a playback error. Nothing is ever recorded, and the job never
  reaches finalization: \<open>handleExport\<close> does not return for any fuel, so it neither
  fails with \<open>No video data recorded (chunks empty)\<close> nor raises the alert. Without the
  track the same job ends and fails with that error.
\<close>

theorem empty_recording_with_track_never_fails:
  "sum_list (recordedData (exampleEnv True (\<lambda>k. if even k then LoadTimeout else PlaybackError) [])) = 0
   \<and> handleExport fuel (exampleEnv True (\<lambda>k. if even k then LoadTimeout else PlaybackError) [])
        (exampleComposition [exampleClip ''a'', exampleClip ''b'']) False
        (exampleApp (Some (exampleTrack 30)) False 0 False) = None
   \<and> map_option (\<lambda>r. (job_outcome (snd r), job_alert (snd r)))
       (handleExport 3 (exampleEnv True (\<lambda>k. if even k then LoadTimeout else PlaybackError) [])
          (exampleComposition [exampleClip ''a'', exampleClip ''b'']) False
          (exampleApp None False 0 False))
     = Some (Failed noDataMessage, True)"
proof -
  let ?env = "exampleEnv True (\<lambda>k. if even k then LoadTimeout else PlaybackError) []"
  have a: "sum_list (recordedData ?env) = 0" by (simp add: exampleEnv_def)
  have b: "handleExport fuel ?env (exampleComposition [exampleClip ''a'', exampleClip ''b'']) False
        (exampleApp (Some (exampleTrack 30)) False 0 False) = None"
    by (rule handleExport_track_without_play[of _ _ "exampleTrack 30"])
       (simp_all add: exampleEnv_def exampleApp_def exampleComposition_def exampleTrack_def
          totalDurationOf_def)
  have c: "map_option (\<lambda>r. (job_outcome (snd r), job_alert (snd r)))
       (handleExport 3 ?env (exampleComposition [exampleClip ''a'', exampleClip ''b'']) False
          (exampleApp None False 0 False))
     = Some (Failed noDataMessage, True)"
    by code_simp
  from a b c show ?thesis by simp
qed

subsection \<open>Load timeouts\<close>

text \<open>
  The step of a load timeout, in every mode: it logs \<open>Video load timeout: <name>\<close>,
  adds one to the segment index, leaves the accounted time and the finished flag
  unchanged and throws nothing.
\<close>

lemma load_timeout_step:
  "currentSegmentIndex (awaitSegment hasBgm D pos seg LoadTimeout s) = currentSegmentIndex s + 1"
  "accumulatedTime (awaitSegment hasBgm D pos seg LoadTimeout s) = accumulatedTime s"
  "isFinished (awaitSegment hasBgm D pos seg LoadTimeout s) = isFinished s"
  "thrown (awaitSegment hasBgm D pos seg LoadTimeout s) = thrown s"
  "consoleLog (awaitSegment hasBgm D pos seg LoadTimeout s)
     = consoleLog s @ [''Video load timeout: '' @ vf_name seg]"
  by (simp_all add: awaitSegment_def)

text \<open>
  Without a track, when segment \<open>j\<close> times out while the others play, the job returns
  (with more fuel than there are segments), visits every segment exactly once in order,
  skips \<open>j\<close>, plays all the others to their natural end, and fails only if the recorder
  delivered zero bytes.
\<close>

lemma trackless_timeout_skips:
  assumes "bgm st = None"
    and "\<not> (isExporting st \<and> \<not> isBatch)"
    and "length (comp_segments c) < fuel"
    and "j < length (comp_segments c)"
    and "segmentEvents env j = LoadTimeout"
    and "\<forall>k<length (comp_segments c). k \<noteq> j \<longrightarrow> (\<exists>d cs. segmentEvents env k = Plays d cs)"
  shows "\<exists>st' rep l.
             handleExport fuel env c isBatch st = Some (st', rep)
           \<and> job_loop rep = Some l
           \<and> isFinished l
           \<and> map v_index (visits l) = [0..<length (comp_segments c)]
           \<and> map v_outcome (visits l)
                = map (\<lambda>k. if k = j then TimedOut else EndedNaturally (durationOf (segmentEvents env k)))
                      [0..<length (comp_segments c)]
           \<and> (job_outcome rep = Failed noDataMessage \<longleftrightarrow> sum_list (recordedData env) = 0)
           \<and> (\<forall>e. job_outcome rep = Failed e \<longrightarrow> e = noDataMessage)"
proof -
  from handleExport_trackless_returns[OF assms(1,3)]
  obtain st' rep where h: "handleExport fuel env c isBatch st = Some (st', rep)"
    by blast
  from handleExport_accepted[OF assms(2) h] obtain l where
    run: "playNextSegment fuel (comp_segments c) (bgm st \<noteq> None)
               (totalDurationOf (bgm st) (bgmDecodes env)) (segmentEvents env) initLoop = Some l"
    and jl: "job_loop rep = Some l"
    by blast
  from run assms(1) have run': "playNextSegment fuel (comp_segments c) False
               (totalDurationOf (bgm st) (bgmDecodes env)) (segmentEvents env) initLoop = Some l"
    by simp
  have res: "isFinished l" "map v_index (visits l) = [0..<length (comp_segments c)]"
    "map v_outcome (visits l) = map (\<lambda>k. outcomeOf False 0 0 (segmentEvents env k)) [0..<length (comp_segments c)]"
    using trackless_result[OF run'] by (simp_all add: initLoop_def)
  have "map (\<lambda>k. outcomeOf False 0 0 (segmentEvents env k)) [0..<length (comp_segments c)]
      = map (\<lambda>k. if k = j then TimedOut else EndedNaturally (durationOf (segmentEvents env k)))
            [0..<length (comp_segments c)]"
  proof (rule map_cong[OF refl])
    fix k assume "k \<in> set [0..<length (comp_segments c)]"
    then have k: "k < length (comp_segments c)" by simp
    show "outcomeOf False 0 0 (segmentEvents env k)
        = (if k = j then TimedOut else EndedNaturally (durationOf (segmentEvents env k)))"
    proof (cases "k = j")
      case True
      then show ?thesis using assms(5) by (simp add: outcomeOf_def)
    next
      case False
      with assms(6) k obtain d cs where "segmentEvents env k = Plays d cs" by blast
      with False show ?thesis by (simp add: outcomeOf_def pollCutoff_def durationOf_def)
    qed
  qed
  with res have oc: "map v_outcome (visits l)
      = map (\<lambda>k. if k = j then TimedOut else EndedNaturally (durationOf (segmentEvents env k)))
            [0..<length (comp_segments c)]"
    by simp
  have ne: "comp_segments c \<noteq> []" using assms(4) by auto
  from finalization_outcome[OF ne assms(2) h]
  have fat: "(job_outcome rep = Failed noDataMessage \<longleftrightarrow> sum_list (recordedData env) = 0)"
    "\<forall>e. job_outcome rep = Failed e \<longrightarrow> e = noDataMessage"
    by auto
  show ?thesis
    by (intro exI[of _ st'] exI[of _ rep] exI[of _ l] conjI h jl res(1,2) oc fat)
qed

text \<open>
  With a track of 2 s and the clips a (which always times out) and b (1.5 s), the job
  also completes: a is skipped on every round and b is played until the cutoff.
\<close>

lemma track_timeout_example:
  "map_option (\<lambda>s. (isFinished s, consoleLog s, map (\<lambda>v. (v_index v, v_outcome v)) (visits s)))
     (playNextSegment 5 [exampleClip ''a'', exampleClip ''b''] True
        (totalDurationOf (Some (exampleTrack 2)) True)
        (\<lambda>k. if even k then LoadTimeout else Plays (3/2) examplePoll) initLoop)
   = Some (True, [''Video load timeout: a'', ''Video load timeout: a''],
           [(0, TimedOut), (1, EndedNaturally (3/2)), (0, TimedOut), (1, ForcedStop (11/20))])"
  by code_simp

text \<open>
  C7 (evaluation at the failing input). A track of 30 s is attached and decoded and the
  composition consists of one segment that always times out. Every visit logs the
  timeout and adds one to the index, but the accounted time stays 0 and never reaches
  the 30 s of the track: after every number of visits the finishing test is still
  unmet, and \<open>handleExport\<close> does not return for any fuel. Without the track the same
  job completes after one visit.
\<close>

theorem timed_out_segment_with_track_never_completes:
  "\<not> loopDone True 30 1
       (afterVisits k [exampleClip ''a''] True (totalDurationOf (Some (exampleTrack 30)) True)
          (\<lambda>k. LoadTimeout) initLoop)
   \<and> handleExport fuel (exampleEnv True (\<lambda>k. LoadTimeout) [1000])
        (exampleComposition [exampleClip ''a'']) False
        (exampleApp (Some (exampleTrack 30)) False 0 False) = None
   \<and> map_option (\<lambda>r. (job_outcome (snd r),
                       map_option (\<lambda>l. (consoleLog l, map v_outcome (visits l))) (job_loop (snd r))))
       (handleExport 2 (exampleEnv True (\<lambda>k. LoadTimeout) [1000])
          (exampleComposition [exampleClip ''a'']) False (exampleApp None False 0 False))
     = Some (Downloaded ''mix_1_9_16.mp4'' ''video/mp4'', Some ([''Video load timeout: a''], [TimedOut]))"
proof -
  let ?env = "exampleEnv True (\<lambda>k. LoadTimeout) [1000]"
  have "accumulatedTime (afterVisits k [exampleClip ''a''] True 30 (\<lambda>k. LoadTimeout) initLoop) = 0"
    by (rule afterVisits_invariant)
       (simp_all add: initLoop_def visitSegment_fields accountOf_def)
  then have a: "\<not> loopDone True 30 1
       (afterVisits k [exampleClip ''a''] True (totalDurationOf (Some (exampleTrack 30)) True)
          (\<lambda>k. LoadTimeout) initLoop)"
    by (simp add: loopDone_def totalDurationOf_def exampleTrack_def)
  have b: "handleExport fuel ?env (exampleComposition [exampleClip ''a'']) False
        (exampleApp (Some (exampleTrack 30)) False 0 False) = None"
    by (rule handleExport_track_without_play[of _ _ "exampleTrack 30"])
       (simp_all add: exampleEnv_def exampleApp_def exampleComposition_def exampleTrack_def
          totalDurationOf_def)
  have c: "map_option (\<lambda>r. (job_outcome (snd r),
                       map_option (\<lambda>l. (consoleLog l, map v_outcome (visits l))) (job_loop (snd r))))
       (handleExport 2 ?env (exampleComposition [exampleClip ''a'']) False (exampleApp None False 0 False))
     = Some (Downloaded ''mix_1_9_16.mp4'' ''video/mp4'', Some ([''Video load timeout: a''], [TimedOut]))"
    by code_simp
  from a b c show ?thesis by simp
qed

subsection \<open>One export at a time\<close>

text \<open>
  C3. In every state in which an export is active (\<open>isExporting\<close> for a single export,
  \<open>batchStatus.active\<close> for a batch), a new request from either export button is rejected
  at once: the state, and with it the progress of the active job, is unchanged and no
  progress update is emitted. \<open>handleBatchExport\<close> itself rejects on either flag, and
  \<open>handleExport\<close> itself rejects a single request while \<open>isExporting\<close> is set; during a
  batch, which never sets \<open>isExporting\<close>, the single request is rejected by the
  \<open>disabled\<close> attribute of the export button.
\<close>

theorem concurrent_export_rejected:
  assumes "isExporting st \<or> bs_active (batchStatus st)"
  shows "clickExport fuel env c st
           = Some (st, \<lparr> job_emitted = [], job_outcome = Rejected, job_alert = False, job_loop = None \<rparr>)
       \<and> clickBatchExport fuel envs st = Some (st, [])
       \<and> handleBatchExport fuel envs st = Some (st, [])
       \<and> (isExporting st \<longrightarrow>
            handleExport fuel env c False st
              = Some (st, \<lparr> job_emitted = [], job_outcome = Rejected, job_alert = False, job_loop = None \<rparr>))"
  using assms
  by (auto simp: clickExport_def clickBatchExport_def handleBatchExport_def handleExport_def Let_def)

theorem concurrent_export_rejected_witness:
  "clickExport 4 (exampleEnv True (\<lambda>k. Plays 5 [1, 2, 3, 4]) [1000])
       (exampleComposition [exampleClip ''a'']) (exampleApp None False 40 True)
     = Some (exampleApp None False 40 True,
             \<lparr> job_emitted = [], job_outcome = Rejected, job_alert = False, job_loop = None \<rparr>)
   \<and> clickBatchExport 4 (\<lambda>i. exampleEnv True (\<lambda>k. Plays 5 [1, 2, 3, 4]) [1000]) (exampleApp None False 40 True)
     = Some (exampleApp None False 40 True, [])
   \<and> exportProgress (exampleApp None False 40 True) = 40"
proof -
  have h: "isExporting (exampleApp None False 40 True) \<or> bs_active (batchStatus (exampleApp None False 40 True))"
    by (simp add: exampleApp_def)
  show ?thesis
    using concurrent_export_rejected[OF h] by (simp add: exampleApp_def)
qed

text \<open>
  The guard of \<open>handleExport\<close> does not read \<open>batchStatus.active\<close>: called directly during a
  batch it would run and reset the progress. Its only caller outside the batch loop is
  the export button.
\<close>

lemma handleExport_guard_ignores_batch:
  "map_option (\<lambda>r. (exportProgress (fst r), job_outcome (snd r), job_emitted (snd r)))
     (handleExport 4 (exampleEnv True (\<lambda>k. Plays 5 [1, 2, 3, 4]) [1000])
        (exampleComposition [exampleClip ''a'']) False (exampleApp None False 40 True))
   = Some (0, Downloaded ''mix_1_9_16.mp4'' ''video/mp4'', [0, 0, 0])"
  by code_simp

subsection \<open>A track that fails to decode\<close>

text \<open>
  C2 (evaluation at the failing input). With a track configured whose decoding fails,
  the target duration is 9999 and the loop still takes the track-bound branches: a single
  clip of 5000 s is played twice and the second visit is cut off at clip time 4999 s,
  whereas without a track the same clip is played once to its natural end.
\<close>

theorem decode_failure_still_loops:
  "totalDurationOf (Some (exampleTrack 30)) False = 9999
   \<and> map_option (\<lambda>r. map_option (\<lambda>l. map (\<lambda>v. (v_index v, v_start v, v_outcome v)) (visits l)) (job_loop (snd r)))
       (handleExport 5 (exampleEnv False (\<lambda>k. Plays 5000 [1000, 2000, 3000, 4000, 4999]) [1000])
          (exampleComposition [exampleClip ''a'']) False (exampleApp (Some (exampleTrack 30)) False 0 False))
     = Some (Some [(0, 0, EndedNaturally 5000), (0, 5000, ForcedStop 4999)])
   \<and> map_option (\<lambda>r. map_option (\<lambda>l. map (\<lambda>v. (v_index v, v_start v, v_outcome v)) (visits l)) (job_loop (snd r)))
       (handleExport 5 (exampleEnv False (\<lambda>k. Plays 5000 [1000, 2000, 3000, 4000, 4999]) [1000])
          (exampleComposition [exampleClip ''a'']) False (exampleApp None False 0 False))
     = Some (Some [(0, 0, EndedNaturally 5000)])"
  by code_simp

section \<open>Preview and export rendering of the overlay\<close>

text \<open>
  C4 (evaluation at the failing input). For an overlay with \<open>shadowBlur = 10\<close> and no
  \<open>shadowColor\<close>, the preview styles the text with a black shadow of \<open>10 / 720\<close> of the
  container width, while the export draws every line without shadow.
\<close>

theorem preview_export_shadow_divergence:
  "css_textShadow (previewStyle (exampleOverlay None None (Some 10) None)) = Some (10 / 720 * 100, ''black'')
   \<and> fst (drawOverlay exampleMeasure (exampleOverlay None None (Some 10) None) 720 1280 exportCtx)
     = [FillRect ''#112233'' 310 572 100 136 (''rgba(0, 0, 0, 0)'', 0),
        FillText ''Hi'' 360 616 ''#ffffff'' (''transparent'', 0),
        FillText ''you'' 360 664 ''#ffffff'' (''transparent'', 0)]"
  by (simp add: previewStyle_def drawOverlay_def exampleOverlay_def exampleMeasure_def Let_def truthy_num_def
        truthy_str_def maxLineWidth_def drawLine_def exportCtx_def shadowOf_def setShadowBlur_def
        setLineWidth_def)

text \<open>
  What the two paths share: at the reference width of 720 pixels the preview's font size,
  stroke width and shadow blur are the overlay's own values, which the export uses as
  pixels on its 720 pixel wide canvas.
\<close>

lemma preview_scaling_at_reference_width:
  "css_fontSize (previewStyle ov) / 100 * 720 = ov_fontSize ov"
  "css_textStroke (previewStyle ov) = Some (w, sc) \<Longrightarrow> w / 100 * 720 = the (ov_strokeWidth ov)"
  "css_textShadow (previewStyle ov) = Some (b, col) \<Longrightarrow> b / 100 * 720 = the (ov_shadowBlur ov)"
  by (auto simp: previewStyle_def split: if_splits)

end
